theory Spec2Isabelle
  imports
    Main
    "HOL-Library.AList"
    "HOL-Library.Char_ord"
    "HOL-Library.List_Lexorder"
    "HOL-Library.Multiset"
    "HOL-Library.Product_Lexorder"
begin

section \<open>Data model of \<^verbatim>\<open>pytriton/decorators.py\<close>\<close>

text \<open>
  Exceptions are values.  \<open>PytritonValidationError\<close> is the repository's own exception;
  the others are the built-in exceptions that the Python and NumPy operations used by the
  decorators raise.
\<close>

datatype error =
    PytritonValidationError
  | IndexError
  | KeyError
  | StopIteration
  | ValueError
  | AxisError
  | TypeError
  | AttributeError

text \<open>
  A Python \<open>dict\<close> keeps insertion order and has distinct keys: an association list.
  \<open>d[k] = v\<close> overwrites in place when \<open>k\<close> is present and appends otherwise, which is
  \<^const>\<open>AList.update\<close>; \<open>d.update(e)\<close> assigns the items of \<open>e\<close> from left to right.
\<close>

type_synonym 'v dict = "(string \<times> 'v) list"

definition keys :: "'v dict \<Rightarrow> string list" where
  "keys d = map fst d"

definition getitem :: "'v dict \<Rightarrow> string \<Rightarrow> error + 'v" where
  "getitem d k = (case map_of d k of None \<Rightarrow> Inl KeyError | Some v \<Rightarrow> Inr v)"

definition setitem :: "'v dict \<Rightarrow> string \<Rightarrow> 'v \<Rightarrow> 'v dict" where
  "setitem d k v = AList.update k v d"

definition dict_update :: "'v dict \<Rightarrow> 'v dict \<Rightarrow> 'v dict" where
  "dict_update d e = fold (\<lambda>(k, v) acc. setitem acc k v) e d"

text \<open>
  A dense NumPy array: its shape and its elements in row-major order.  Axis 0 is the batch
  axis, so an array of shape \<open>n # rest\<close> has \<open>n\<close> rows of \<open>prod_list rest\<close> elements each.
  An element is a number or, in a floating-point array, the value NaN.  Numbers are
  integers here: no decorator does arithmetic on the elements, they are moved and, by
  \<open>group_by_values\<close>, compared, and the numbers of every NumPy type are linearly
  ordered with a reflexive equality, as the integers are.  NaN is the one value that is
  not.
\<close>

datatype elem = Num int | NaN

datatype ndarray = NDArray (shape: "nat list") (flat: "elem list")

text \<open>The model configuration (declared outside this file): only the fields read here.\<close>

record TensorSpec =
  name :: string

record DynamicBatcher =
  preferred_batch_size :: "int list option"

record TritonModelConfig =
  max_batch_size :: int
  batcher :: "DynamicBatcher option"
  outputs :: "TensorSpec list"

record TritonContext =
  model_config :: TritonModelConfig

text \<open>What an inference callable may return: a dict, a list, a tuple, or anything else.\<close>

datatype 'v pyout =
    PyDict "'v dict"
  | PyList "'v list"
  | PyTuple "'v list"
  | PyOther

section \<open>Context lookup and output normalisation\<close>

text \<open>
  \<open>get_triton_context(wrapped, instance)\<close>: the caller either carries the attribute
  \<open>__triton_context__\<close> (\<open>Some\<close>) or does not (\<open>None\<close>).
\<close>

definition get_triton_context :: "TritonContext option \<Rightarrow> error + TritonContext" where
  "get_triton_context caller =
     (case caller of None \<Rightarrow> Inl PytritonValidationError | Some c \<Rightarrow> Inr c)"

definition get_model_config :: "TritonContext option \<Rightarrow> error + TritonModelConfig" where
  "get_model_config caller =
     (case get_triton_context caller of Inl e \<Rightarrow> Inl e | Inr c \<Rightarrow> Inr (model_config c))"

text \<open>
  \<open>convert_output(outputs, wrapped, instance, model_config)\<close>.  The dict comprehension
  over \<open>zip(model_config.outputs, outputs)\<close> assigns the pairs from left to right.
\<close>

definition zip_outputs :: "TritonModelConfig \<Rightarrow> 'v list \<Rightarrow> error + 'v dict" where
  "zip_outputs cfg outs =
     (if length outs \<noteq> length (outputs cfg) then Inl PytritonValidationError
      else Inr (fold (\<lambda>(config_output, output) acc. setitem acc (name config_output) output)
                  (zip (outputs cfg) outs) []))"

definition convert_sequence ::
  "'v list \<Rightarrow> TritonContext option \<Rightarrow> TritonModelConfig option \<Rightarrow> error + 'v dict" where
  "convert_sequence outs caller mc =
     (case mc of
        Some cfg \<Rightarrow> zip_outputs cfg outs
      | None \<Rightarrow>
          (case get_model_config caller of
             Inl e \<Rightarrow> Inl e
           | Inr cfg \<Rightarrow> zip_outputs cfg outs))"

fun convert_output ::
  "'v pyout \<Rightarrow> TritonContext option \<Rightarrow> TritonModelConfig option \<Rightarrow> error + 'v dict" where
  "convert_output (PyDict d) caller mc = Inr d"
| "convert_output (PyList outs) caller mc = convert_sequence outs caller mc"
| "convert_output (PyTuple outs) caller mc = convert_sequence outs caller mc"
| "convert_output PyOther caller mc = Inl PytritonValidationError"

section \<open>NumPy and standard-library primitives\<close>

text \<open>
  The operations of NumPy and of the Python standard library that the decorators call,
  after their documented behaviour, with every exception they raise on the way.
\<close>

text \<open>\<open>a.shape[0]\<close>: indexing the empty shape tuple of a 0-d array raises.\<close>

definition shape0 :: "ndarray \<Rightarrow> error + nat" where
  "shape0 a = (case shape a of [] \<Rightarrow> Inl IndexError | n # rest \<Rightarrow> Inr n)"

text \<open>The rows along axis 0, each flattened.\<close>

definition row_size :: "ndarray \<Rightarrow> nat" where
  "row_size a = prod_list (tl (shape a))"

definition row :: "ndarray \<Rightarrow> nat \<Rightarrow> elem list" where
  "row a i = take (row_size a) (drop (i * row_size a) (flat a))"

definition rows :: "ndarray \<Rightarrow> elem list list" where
  "rows a = map (row a) [0..<hd (shape a)]"

text \<open>
  \<open>np.concatenate(arrs)\<close> along axis 0: at least one array, none of them 0-d, all of the
  same shape apart from axis 0.
\<close>

definition np_concatenate :: "ndarray list \<Rightarrow> error + ndarray" where
  "np_concatenate arrs =
     (case arrs of
        [] \<Rightarrow> Inl ValueError
      | a # rest \<Rightarrow>
          if list_ex (\<lambda>x. shape x = []) arrs then Inl ValueError
          else if list_ex (\<lambda>x. tl (shape x) \<noteq> tl (shape a)) rest then Inl ValueError
          else Inr (NDArray (sum_list (map (\<lambda>x. hd (shape x)) arrs) # tl (shape a))
                     (concat (map flat arrs))))"

text \<open>
  \<open>a[start:stop, ...]\<close> with non-negative bounds: a slice clamps its bounds to the length
  of axis 0 and is empty when they cross; a 0-d array has no axis to slice.
\<close>

definition slice_rows :: "ndarray \<Rightarrow> nat \<Rightarrow> nat \<Rightarrow> error + ndarray" where
  "slice_rows a start stop =
     (case shape a of
        [] \<Rightarrow> Inl IndexError
      | n # rest \<Rightarrow>
          let lo = min start n;
              hi = min stop n;
              len = (if lo \<le> hi then hi - lo else 0)
          in Inr (NDArray (len # rest)
                   (take (len * prod_list rest) (drop (lo * prod_list rest) (flat a)))))"

text \<open>\<open>a[0]\<close>: the first row; for a 1-d array this is a NumPy scalar, of shape \<open>()\<close>.\<close>

definition index0 :: "ndarray \<Rightarrow> error + ndarray" where
  "index0 a =
     (case shape a of
        [] \<Rightarrow> Inl IndexError
      | n # rest \<Rightarrow>
          if n = 0 then Inl IndexError
          else Inr (NDArray rest (take (prod_list rest) (flat a))))"

text \<open>
  \<open>==\<close> and \<open><\<close> between two array elements: a NaN is neither equal to nor less than
  anything, itself included.
\<close>

fun elem_eq :: "elem \<Rightarrow> elem \<Rightarrow> bool" where
  "elem_eq (Num x) (Num y) \<longleftrightarrow> x = y"
| "elem_eq a b \<longleftrightarrow> False"

fun elem_lt :: "elem \<Rightarrow> elem \<Rightarrow> bool" where
  "elem_lt (Num x) (Num y) \<longleftrightarrow> x < y"
| "elem_lt a b \<longleftrightarrow> False"

text \<open>
  \<open>==\<close> and \<open><\<close> between two tuples, for the \<open>==\<close> and \<open><\<close> of their items: the first
  position where the items are not \<open>==\<close> decides, and when the shorter tuple has no such
  position the lengths decide.
\<close>

fun tuple_eq :: "('a \<Rightarrow> 'a \<Rightarrow> bool) \<Rightarrow> 'a list \<Rightarrow> 'a list \<Rightarrow> bool" where
  "tuple_eq eq [] [] \<longleftrightarrow> True"
| "tuple_eq eq (x # xs) (y # ys) \<longleftrightarrow> eq x y \<and> tuple_eq eq xs ys"
| "tuple_eq eq xs ys \<longleftrightarrow> False"

fun tuple_lt :: "('a \<Rightarrow> 'a \<Rightarrow> bool) \<Rightarrow> ('a \<Rightarrow> 'a \<Rightarrow> bool) \<Rightarrow> 'a list \<Rightarrow> 'a list \<Rightarrow> bool" where
  "tuple_lt eq lt (x # xs) (y # ys) \<longleftrightarrow> (if eq x y then tuple_lt eq lt xs ys else lt x y)"
| "tuple_lt eq lt [] (y # ys) \<longleftrightarrow> True"
| "tuple_lt eq lt xs [] \<longleftrightarrow> False"

text \<open>
  The order in which NumPy sorts elements: the numbers ascending, NaN after all of them.
  Rows are sorted like records, field by field, which is the lexicographic order of lists.
\<close>

instantiation elem :: linorder
begin

definition less_eq_elem :: "elem \<Rightarrow> elem \<Rightarrow> bool" where
  "less_eq_elem a b \<longleftrightarrow>
     (case b of NaN \<Rightarrow> True | Num y \<Rightarrow> (case a of NaN \<Rightarrow> False | Num x \<Rightarrow> x \<le> y))"

definition less_elem :: "elem \<Rightarrow> elem \<Rightarrow> bool" where
  "less_elem a b \<longleftrightarrow>
     (case a of NaN \<Rightarrow> False | Num x \<Rightarrow> (case b of NaN \<Rightarrow> True | Num y \<Rightarrow> x < y))"

instance
  by standard (auto simp: less_eq_elem_def less_elem_def split: elem.splits)

end

text \<open>
  \<open>np.unique(a, axis=0)\<close>: the rows are sorted, and a sorted row is kept when it is the
  first one or is \<open>!=\<close> to the row before it, that is when some field differs.  These are
  the distinct rows in ascending order; a row that holds a NaN differs from every row and
  is kept each time it occurs.
\<close>

definition np_unique :: "ndarray \<Rightarrow> error + ndarray" where
  "np_unique a =
     (case shape a of
        [] \<Rightarrow> Inl AxisError
      | n # rest \<Rightarrow>
          let aux = sort (rows a);
              mask = True # map2 (\<lambda>cur prev. \<not> tuple_eq elem_eq cur prev) (tl aux) aux;
              u = map fst (filter snd (zip aux mask))
          in Inr (NDArray (length u # rest) (concat u)))"

text \<open>
  \<open>np.tile(a, reps)\<close>: the shorter of shape and \<open>reps\<close> is padded with leading ones,
  then every axis is repeated \<open>reps\<close> times, innermost axes first.
\<close>

fun tile_rows :: "nat list \<Rightarrow> nat list \<Rightarrow> elem list \<Rightarrow> elem list" where
  "tile_rows (s # ss) (r # rs) xs =
     concat (replicate r (concat (map
       (\<lambda>i. tile_rows ss rs (take (prod_list ss) (drop (i * prod_list ss) xs))) [0..<s])))"
| "tile_rows ss rs xs = xs"

definition np_tile :: "ndarray \<Rightarrow> nat list \<Rightarrow> ndarray" where
  "np_tile a reps =
     (let d = max (length reps) (length (shape a));
          sh = replicate (d - length (shape a)) 1 @ shape a;
          rp = replicate (d - length reps) 1 @ reps
      in NDArray (map2 (*) sh rp) (tile_rows sh rp (flat a)))"

text \<open>
  \<open>np.repeat(a, counts, axis=0)\<close>: row \<open>i\<close> is repeated \<open>counts[i]\<close> times; a single count
  is broadcast to every row; a negative count is refused.
\<close>

definition np_repeat :: "ndarray \<Rightarrow> int list \<Rightarrow> error + ndarray" where
  "np_repeat a counts =
     (case shape a of
        [] \<Rightarrow> Inl AxisError
      | n # rest \<Rightarrow>
          let cs = (if length counts = 1 then replicate n (hd counts) else counts)
          in if list_ex (\<lambda>c. c < 0) cs \<or> length cs \<noteq> n then Inl ValueError
             else let rs = concat (map2 (\<lambda>c r. replicate (nat c) r) cs (rows a))
                  in Inr (NDArray (length rs # rest) (concat rs)))"

text \<open>\<open>res.flatten().item()\<close>: only an array of exactly one element converts.\<close>

definition item :: "ndarray \<Rightarrow> error + elem" where
  "item a = (case flat a of [x] \<Rightarrow> Inr x | _ \<Rightarrow> Inl ValueError)"

text \<open>\<open>max(t)\<close> of a tuple: the empty tuple raises.\<close>

fun py_max :: "nat list \<Rightarrow> error + nat" where
  "py_max [] = Inl ValueError"
| "py_max (x # xs) = Inr (fold max xs x)"

text \<open>\<open>bisect.bisect_left(a, x)\<close>: the standard library's binary search.\<close>

function bisect_loop :: "int list \<Rightarrow> int \<Rightarrow> nat \<Rightarrow> nat \<Rightarrow> nat" where
  "bisect_loop a x lo hi =
     (if lo < hi then
        (let mid = (lo + hi) div 2
         in if a ! mid < x then bisect_loop a x (mid + 1) hi else bisect_loop a x lo mid)
      else lo)"
  by pat_completeness auto
termination
  by (relation "measure (\<lambda>(a, x, lo, hi). hi - lo)") auto

definition bisect_left :: "int list \<Rightarrow> int \<Rightarrow> nat" where
  "bisect_left a x = bisect_loop a x 0 (length a)"

text \<open>
  \<open>itertools.groupby(xs, key)\<close>: the maximal runs of consecutive elements whose key is
  \<open>==\<close> to the key of the first element of the run.
\<close>

function groupby :: "('k \<Rightarrow> 'k \<Rightarrow> bool) \<Rightarrow> ('a \<Rightarrow> 'k) \<Rightarrow> 'a list \<Rightarrow> ('k \<times> 'a list) list" where
  "groupby eq f [] = []"
| "groupby eq f (x # xs) =
     (f x, x # takeWhile (\<lambda>y. eq (f x) (f y)) xs) # groupby eq f (dropWhile (\<lambda>y. eq (f x) (f y)) xs)"
  by pat_completeness auto
termination
  by (relation "measure (\<lambda>(eq, f, xs). length xs)") (auto simp: length_dropWhile_le less_Suc_eq_le)

text \<open>
  \<open>xs.sort(key=f)\<close>, which reads the keys through \<open><\<close> only, as CPython 3.8 to 3.11
  sort a list of fewer than 64 elements: the run at the head of the list is taken as it
  is when it ascends (no key \<open><\<close> the key before it) and reversed when it strictly
  descends, and every later element is put into the run at the point a binary search
  finds.  Longer lists are cut into such runs, which are then merged; that gives the same
  list whenever \<open><\<close> is a strict weak order on the keys, where the result is the stable
  sort.  Only keys that hold a NaN are not ordered so.
\<close>

fun asc_run :: "('k \<Rightarrow> 'k \<Rightarrow> bool) \<Rightarrow> 'k \<Rightarrow> 'k list \<Rightarrow> nat" where
  "asc_run lt prev [] = 0"
| "asc_run lt prev (k # ks) = (if lt k prev then 0 else Suc (asc_run lt k ks))"

fun desc_run :: "('k \<Rightarrow> 'k \<Rightarrow> bool) \<Rightarrow> 'k \<Rightarrow> 'k list \<Rightarrow> nat" where
  "desc_run lt prev [] = 0"
| "desc_run lt prev (k # ks) = (if lt k prev then Suc (desc_run lt k ks) else 0)"

function insertion_point :: "('k \<Rightarrow> 'k \<Rightarrow> bool) \<Rightarrow> 'k list \<Rightarrow> 'k \<Rightarrow> nat \<Rightarrow> nat \<Rightarrow> nat" where
  "insertion_point lt a pivot l r =
     (if l < r then
        (let p = l + (r - l) div 2
         in if lt pivot (a ! p) then insertion_point lt a pivot l p
            else insertion_point lt a pivot (p + 1) r)
      else l)"
  by pat_completeness auto
termination
  by (relation "measure (\<lambda>(lt, a, pivot, l, r). r - l)") auto

definition binary_insert :: "('k \<Rightarrow> 'k \<Rightarrow> bool) \<Rightarrow> ('a \<Rightarrow> 'k) \<Rightarrow> 'a \<Rightarrow> 'a list \<Rightarrow> 'a list" where
  "binary_insert lt f pivot run =
     (let l = insertion_point lt (map f run) (f pivot) 0 (length run)
      in take l run @ pivot # drop l run)"

definition list_sort :: "('k \<Rightarrow> 'k \<Rightarrow> bool) \<Rightarrow> ('a \<Rightarrow> 'k) \<Rightarrow> 'a list \<Rightarrow> 'a list" where
  "list_sort lt f xs =
     (case map f xs of
        k0 # k1 # ks \<Rightarrow>
          if lt k1 k0
          then let n = 2 + desc_run lt k1 ks
               in fold (binary_insert lt f) (drop n xs) (rev (take n xs))
          else let n = 2 + asc_run lt k1 ks
               in fold (binary_insert lt f) (drop n xs) (take n xs)
      | _ \<Rightarrow> xs)"

section \<open>The decorators\<close>

text \<open>
  A request is a dict of named arrays.  Keyword arguments may also hold a Python scalar
  (what \<open>first_value\<close> produces) or the Triton context.

  A decorator wraps a callable.  The callable is a function of the one argument the
  decorator builds for it (the other positional and keyword arguments are passed through
  unchanged) and may raise.  Every decorator returns, next to its own result, the list of
  arguments it called the wrapped callable with, in call order.
\<close>

type_synonym request = "ndarray dict"

datatype pyval = Array ndarray | Item elem | Context TritonContext

type_synonym kwargs = "pyval dict"

text \<open>
  The decorators \<open>sample\<close> and \<open>triton_context\<close> take no part in the properties below and
  are left out.
\<close>

subsection \<open>\<open>batch\<close>\<close>

text \<open>\<open>[req_dict[model_input] for req_dict in req_list]\<close>\<close>

fun gather :: "string \<Rightarrow> request list \<Rightarrow> error + ndarray list" where
  "gather model_input [] = Inr []"
| "gather model_input (req_dict # req_list) =
     (case getitem req_dict model_input of
        Inl e \<Rightarrow> Inl e
      | Inr a \<Rightarrow>
          (case gather model_input req_list of
             Inl e \<Rightarrow> Inl e
           | Inr arrs \<Rightarrow> Inr (a # arrs)))"

text \<open>The loop over \<open>input_names\<close> that fills \<open>inputs\<close>.\<close>

fun merge_inputs :: "string list \<Rightarrow> request list \<Rightarrow> request \<Rightarrow> error + request" where
  "merge_inputs [] req_list inputs = Inr inputs"
| "merge_inputs (model_input # input_names) req_list inputs =
     (case gather model_input req_list of
        Inl e \<Rightarrow> Inl e
      | Inr arrs \<Rightarrow>
          (case np_concatenate arrs of
             Inl e \<Rightarrow> Inl e
           | Inr concatenated_input_data \<Rightarrow>
               merge_inputs input_names req_list
                 (setitem inputs model_input concatenated_input_data)))"

text \<open>The inner loop over \<open>output_names\<close> that fills \<open>req_output_dict\<close>.\<close>

fun slice_outputs ::
  "ndarray dict \<Rightarrow> string list \<Rightarrow> nat \<Rightarrow> nat \<Rightarrow> ndarray dict \<Rightarrow> error + ndarray dict" where
  "slice_outputs outs [] start stop req_output_dict = Inr req_output_dict"
| "slice_outputs outs (output_name # output_names) start stop req_output_dict =
     (case getitem outs output_name of
        Inl e \<Rightarrow> Inl e
      | Inr output \<Rightarrow>
          (case slice_rows output start stop of
             Inl e \<Rightarrow> Inl e
           | Inr req_output \<Rightarrow>
               slice_outputs outs output_names start stop
                 (setitem req_output_dict output_name req_output)))"

text \<open>
  The loop over \<open>req_list\<close> that fills \<open>out_list\<close>; \<open>next(iter(request.values()))\<close> is the
  value inserted first and raises on an empty request.
\<close>

fun split_outputs ::
  "ndarray dict \<Rightarrow> request list \<Rightarrow> nat \<Rightarrow> ndarray dict list \<Rightarrow> error + ndarray dict list" where
  "split_outputs outs [] start_idx out_list = Inr out_list"
| "split_outputs outs (request # req_list) start_idx out_list =
     (case request of
        [] \<Rightarrow> Inl StopIteration
      | (first_name, first_input) # later \<Rightarrow>
          (case shape0 first_input of
             Inl e \<Rightarrow> Inl e
           | Inr request_batch_size \<Rightarrow>
               (case slice_outputs outs (keys outs) start_idx
                       (start_idx + request_batch_size) [] of
                  Inl e \<Rightarrow> Inl e
                | Inr req_output_dict \<Rightarrow>
                    split_outputs outs req_list (start_idx + request_batch_size)
                      (out_list @ [req_output_dict]))))"

text \<open>
  \<open>batch(wrapped, instance, args, kwargs)\<close>.  Two \<open>dict.keys()\<close> views are equal when they
  hold the same keys, in any order.
\<close>

definition batch ::
  "(kwargs \<Rightarrow> error + ndarray pyout) \<Rightarrow> TritonContext option \<Rightarrow> request list \<Rightarrow> kwargs \<Rightarrow>
   kwargs list \<times> (error + ndarray dict list)" where
  "batch wrapped caller req_list kwargs =
     (case req_list of
        [] \<Rightarrow> ([], Inl IndexError)
      | req0 # others \<Rightarrow>
          let input_names = keys req0
          in if list_ex (\<lambda>req_dict2. set input_names \<noteq> set (keys req_dict2)) others
             then ([], Inl PytritonValidationError)
             else
               (case merge_inputs input_names req_list [] of
                  Inl e \<Rightarrow> ([], Inl e)
                | Inr inputs \<Rightarrow>
                    let new_kwargs = dict_update kwargs (map (\<lambda>(k, a). (k, Array a)) inputs)
                    in (case wrapped new_kwargs of
                          Inl e \<Rightarrow> ([new_kwargs], Inl e)
                        | Inr returned \<Rightarrow>
                            (case convert_output returned caller None of
                               Inl e \<Rightarrow> ([new_kwargs], Inl e)
                             | Inr outs \<Rightarrow> ([new_kwargs], split_outputs outs req_list 0 [])))))"

subsection \<open>\<open>group_by_values\<close> and \<open>group_by_keys\<close>\<close>

text \<open>
  The group key of \<open>group_by_values\<close>: per requested key the pair of the shape and the
  flattened contents of the de-duplicated array, or the sentinel \<open>((-1,), (-1,))\<close>.
\<close>

type_synonym value_key = "(int list \<times> elem list) list"

fun req_key :: "string list \<Rightarrow> request \<Rightarrow> error + value_key" where
  "req_key [] input = Inr []"
| "req_key (requested_key # ks) input =
     (case map_of input requested_key of
        Some a \<Rightarrow>
          (case np_unique a of
             Inl e \<Rightarrow> Inl e
           | Inr arr \<Rightarrow>
               (case req_key ks input of
                  Inl e \<Rightarrow> Inl e
                | Inr req_key_list \<Rightarrow> Inr ((map int (shape arr), flat arr) # req_key_list)))
      | None \<Rightarrow>
          (case req_key ks input of
             Inl e \<Rightarrow> Inl e
           | Inr req_key_list \<Rightarrow> Inr (([-1], [Num (-1)]) # req_key_list)))"

text \<open>
  \<open>==\<close> and \<open><\<close> between two group keys, as Python compares these tuples of pairs of
  tuples: the shapes hold integers, the contents hold array elements.
\<close>

fun pair_eq :: "int list \<times> elem list \<Rightarrow> int list \<times> elem list \<Rightarrow> bool" where
  "pair_eq (s1, c1) (s2, c2) \<longleftrightarrow> tuple_eq (=) s1 s2 \<and> tuple_eq elem_eq c1 c2"

fun pair_lt :: "int list \<times> elem list \<Rightarrow> int list \<times> elem list \<Rightarrow> bool" where
  "pair_lt (s1, c1) (s2, c2) \<longleftrightarrow>
     (if tuple_eq (=) s1 s2 then tuple_lt elem_eq elem_lt c1 c2 else tuple_lt (=) (<) s1 s2)"

definition value_key_eq :: "value_key \<Rightarrow> value_key \<Rightarrow> bool" where
  "value_key_eq = tuple_eq pair_eq"

definition value_key_lt :: "value_key \<Rightarrow> value_key \<Rightarrow> bool" where
  "value_key_lt = tuple_lt pair_eq pair_lt"

text \<open>The loop over \<open>enumerate(inputs)\<close> that fills \<open>idx_inputs\<close>.\<close>

fun tag_values ::
  "string list \<Rightarrow> nat \<Rightarrow> request list \<Rightarrow> error + (nat \<times> value_key \<times> request) list" where
  "tag_values ks idx [] = Inr []"
| "tag_values ks idx (input # inputs) =
     (case req_key ks input of
        Inl e \<Rightarrow> Inl e
      | Inr k \<Rightarrow>
          (case tag_values ks (Suc idx) inputs of
             Inl e \<Rightarrow> Inl e
           | Inr idx_inputs \<Rightarrow> Inr ((idx, k, input) # idx_inputs)))"

text \<open>
  The loop over the groups, which both decorators spell out identically:
  \<open>zip(*group)\<close> unpacks into three tuples (and cannot unpack an empty group),
  the wrapped callable gets the samples of the group, and \<open>zip(idx, out)\<close> stops at the
  shorter of the two.
\<close>

fun dispatch ::
  "('q list \<Rightarrow> error + 'r list) \<Rightarrow> ('k \<times> (nat \<times> 'k \<times> 'q) list) list \<Rightarrow> (nat \<times> 'r) list \<Rightarrow>
   'q list list \<times> (error + (nat \<times> 'r) list)" where
  "dispatch wrapped [] idx_groups_res = ([], Inr idx_groups_res)"
| "dispatch wrapped ((k, grp) # groups) idx_groups_res =
     (if grp = [] then ([], Inl ValueError)
      else
        let idx = map fst grp;
            sample_list = map (\<lambda>t. snd (snd t)) grp
        in (case wrapped sample_list of
              Inl e \<Rightarrow> ([sample_list], Inl e)
            | Inr out \<Rightarrow>
                (case dispatch wrapped groups (idx_groups_res @ zip idx out) of
                   (calls, r) \<Rightarrow> (sample_list # calls, r))))"

text \<open>
  What follows the tagging in both decorators, for the \<open><\<close> and \<open>==\<close> of the group keys:
  the sort by group key, the loop over the groups, the sort by index and the projection
  to the results.  The indices are integers, which \<open><\<close> orders linearly, so the second
  sort is the stable sort.
\<close>

definition regroup ::
  "('k \<Rightarrow> 'k \<Rightarrow> bool) \<Rightarrow> ('k \<Rightarrow> 'k \<Rightarrow> bool) \<Rightarrow> ('q list \<Rightarrow> error + 'r list) \<Rightarrow>
   (nat \<times> 'k \<times> 'q) list \<Rightarrow> 'q list list \<times> (error + 'r list)" where
  "regroup lt eq wrapped idx_inputs =
     (case dispatch wrapped
             (groupby eq (\<lambda>t. fst (snd t)) (list_sort lt (\<lambda>t. fst (snd t)) idx_inputs)) [] of
        (calls, Inl e) \<Rightarrow> (calls, Inl e)
      | (calls, Inr idx_groups_res) \<Rightarrow> (calls, Inr (map snd (sort_key fst idx_groups_res))))"

definition group_by_values ::
  "string list \<Rightarrow> (request list \<Rightarrow> error + 'r list) \<Rightarrow> request list \<Rightarrow>
   request list list \<times> (error + 'r list)" where
  "group_by_values ks wrapped inputs =
     (case tag_values ks 0 inputs of
        Inl e \<Rightarrow> ([], Inl e)
      | Inr idx_inputs \<Rightarrow> regroup value_key_lt value_key_eq wrapped idx_inputs)"

text \<open>
  The group key of \<open>group_by_keys\<close>: \<open>tuple(sorted(input.keys()))\<close>.  Python orders
  strings, and tuples of strings, lexicographically, and so does \<open><\<close> on these lists.
\<close>

definition key_tuple :: "request \<Rightarrow> string list" where
  "key_tuple input = sort (keys input)"

definition group_by_keys ::
  "(request list \<Rightarrow> error + 'r list) \<Rightarrow> request list \<Rightarrow> request list list \<times> (error + 'r list)" where
  "group_by_keys wrapped inputs =
     regroup (<) (=) wrapped
       (map (\<lambda>(idx, input). (idx, key_tuple input, input)) (enumerate 0 inputs))"

subsection \<open>\<open>fill_optionals\<close>\<close>

text \<open>
  The loop over \<open>defaults\<close> for one request: \<open>k\<close> is a list of ones, one longer than the
  default's shape, with the batch size written to its head.
\<close>

definition fill_default :: "nat \<Rightarrow> string \<times> ndarray \<Rightarrow> request \<Rightarrow> request" where
  "fill_default batch_size kv request =
     (case kv of (default_key, val) \<Rightarrow>
        if default_key \<notin> set (keys request)
        then setitem request default_key
               (np_tile val ((replicate (length (shape val) + 1) 1)[0 := batch_size]))
        else request)"

definition fill_request :: "ndarray dict \<Rightarrow> request \<Rightarrow> error + request" where
  "fill_request defaults request =
     (case request of
        [] \<Rightarrow> Inl StopIteration
      | (first_name, first_input) # later \<Rightarrow>
          (case shape0 first_input of
             Inl e \<Rightarrow> Inl e
           | Inr batch_size \<Rightarrow> Inr (fold (fill_default batch_size) defaults request)))"

fun fill_requests :: "ndarray dict \<Rightarrow> request list \<Rightarrow> error + request list" where
  "fill_requests defaults [] = Inr []"
| "fill_requests defaults (request # req_list) =
     (case fill_request defaults request of
        Inl e \<Rightarrow> Inl e
      | Inr filled \<Rightarrow>
          (case fill_requests defaults req_list of
             Inl e \<Rightarrow> Inl e
           | Inr rest \<Rightarrow> Inr (filled # rest)))"

definition fill_optionals ::
  "ndarray dict \<Rightarrow> (request list \<Rightarrow> error + 'r) \<Rightarrow> request list \<Rightarrow>
   request list list \<times> (error + 'r)" where
  "fill_optionals defaults wrapped req_list =
     (case fill_requests defaults req_list of
        Inl e \<Rightarrow> ([], Inl e)
      | Inr filled \<Rightarrow> ([filled], wrapped filled))"

subsection \<open>\<open>pad_batch\<close>\<close>

text \<open>Attribute \<open>.shape\<close> followed by \<open>[0]\<close>, on any keyword value.\<close>

definition val_shape0 :: "pyval \<Rightarrow> error + nat" where
  "val_shape0 v = (case v of Array a \<Rightarrow> shape0 a | _ \<Rightarrow> Inl AttributeError)"

text \<open>
  \<open>np.concatenate([np.ones(n - 1), np.array([batch_size - n + 1])]).astype(np.int64)\<close>:
  \<open>np.ones\<close> refuses a negative length.  The counts pass through \<open>float64\<close> and back to
  \<open>int64\<close>, which changes no batch size below \<open>2^53\<close>; the model keeps them as integers.
\<close>

definition repeat_counts :: "nat \<Rightarrow> int \<Rightarrow> error + int list" where
  "repeat_counts n batch_size =
     (if int n - 1 < 0 then Inl ValueError
      else Inr (replicate (nat (int n - 1)) 1 @ [batch_size - int n + 1]))"

definition pad_array :: "int \<Rightarrow> pyval \<Rightarrow> error + pyval" where
  "pad_array batch_size v =
     (case v of
        Array input_array \<Rightarrow>
          (case shape0 input_array of
             Inl e \<Rightarrow> Inl e
           | Inr n \<Rightarrow>
               (case repeat_counts n batch_size of
                  Inl e \<Rightarrow> Inl e
                | Inr counts \<Rightarrow>
                    (case np_repeat input_array counts of
                       Inl e \<Rightarrow> Inl e
                     | Inr padded \<Rightarrow> Inr (Array padded))))
      | _ \<Rightarrow> Inl AttributeError)"

text \<open>The dict comprehension that builds \<open>new_inputs\<close>.\<close>

fun pad_inputs :: "int \<Rightarrow> kwargs \<Rightarrow> error + kwargs" where
  "pad_inputs batch_size [] = Inr []"
| "pad_inputs batch_size ((input_name, input_array) # inputs) =
     (case pad_array batch_size input_array of
        Inl e \<Rightarrow> Inl e
      | Inr padded \<Rightarrow>
          (case pad_inputs batch_size inputs of
             Inl e \<Rightarrow> Inl e
           | Inr new_inputs \<Rightarrow> Inr ((input_name, padded) # new_inputs)))"

definition batch_sizes_of :: "TritonModelConfig \<Rightarrow> int list" where
  "batch_sizes_of config =
     (case batcher config of
        None \<Rightarrow> []
      | Some b \<Rightarrow>
          (case preferred_batch_size b of
             None \<Rightarrow> []
           | Some preferred \<Rightarrow> sort preferred)) @ [max_batch_size config]"

definition pad_batch ::
  "(kwargs \<Rightarrow> error + 'r) \<Rightarrow> TritonContext option \<Rightarrow> kwargs \<Rightarrow> kwargs list \<times> (error + 'r)" where
  "pad_batch wrapped caller kwargs =
     (let inputs = filter (\<lambda>(k, v). k \<noteq> ''__triton_context__'') kwargs
      in case inputs of
           [] \<Rightarrow> ([], Inl StopIteration)
         | (first_name, first_input) # later \<Rightarrow>
             (case get_model_config caller of
                Inl e \<Rightarrow> ([], Inl e)
              | Inr config \<Rightarrow>
                  let batch_sizes = batch_sizes_of config
                  in (case val_shape0 first_input of
                        Inl e \<Rightarrow> ([], Inl e)
                      | Inr n \<Rightarrow>
                          let i = bisect_left batch_sizes (int n)
                          in if length batch_sizes \<le> i then ([], Inl IndexError)
                             else
                               (case pad_inputs (batch_sizes ! i) inputs of
                                  Inl e \<Rightarrow> ([], Inl e)
                                | Inr new_inputs \<Rightarrow>
                                    let padded_kwargs = dict_update kwargs new_inputs
                                    in ([padded_kwargs], wrapped padded_kwargs)))))"

subsection \<open>\<open>first_value\<close>\<close>

text \<open>\<open>v[0]\<close> on any keyword value: only an array can be indexed.\<close>

definition val_index0 :: "pyval \<Rightarrow> error + ndarray" where
  "val_index0 v = (case v of Array a \<Rightarrow> index0 a | _ \<Rightarrow> Inl TypeError)"

text \<open>The loop over \<open>keys\<close>.\<close>

fun first_values :: "string list \<Rightarrow> kwargs \<Rightarrow> error + kwargs" where
  "first_values [] inputs = Inr inputs"
| "first_values (key # ks) inputs =
     (case getitem inputs key of
        Inl e \<Rightarrow> Inl e
      | Inr v \<Rightarrow>
          (case val_index0 v of
             Inl e \<Rightarrow> Inl e
           | Inr res \<Rightarrow>
               (case py_max (shape res) of
                  Inl e \<Rightarrow> Inl e
                | Inr m \<Rightarrow>
                    if m = 1 then
                      (case item res of
                         Inl e \<Rightarrow> Inl e
                       | Inr x \<Rightarrow> first_values ks (setitem inputs key (Item x)))
                    else first_values ks (setitem inputs key (Array res)))))"

definition first_value ::
  "string list \<Rightarrow> (kwargs \<Rightarrow> error + 'r) \<Rightarrow> kwargs \<Rightarrow> kwargs list \<times> (error + 'r)" where
  "first_value ks wrapped kwargs =
     (let inputs = filter (\<lambda>(k, v). k \<noteq> ''__triton_context__'') kwargs
      in case first_values ks inputs of
           Inl e \<Rightarrow> ([], Inl e)
         | Inr taken \<Rightarrow>
             let new_kwargs = dict_update kwargs taken
             in ([new_kwargs], wrapped new_kwargs))"

section \<open>Well-formed arrays\<close>

text \<open>
  The invariant of the array representation: the flat element list has exactly as many
  elements as the shape says.
\<close>

definition wf_array :: "ndarray \<Rightarrow> bool" where
  "wf_array a \<longleftrightarrow> length (flat a) = prod_list (shape a)"

text \<open>
  A keyword value that is a well-formed array with a batch axis of length \<open>n\<close>, and the
  keyword arguments that \<open>pad_batch\<close> and \<open>first_value\<close> treat as inputs.
\<close>

definition has_batch_size :: "nat \<Rightarrow> pyval \<Rightarrow> bool" where
  "has_batch_size n v \<longleftrightarrow>
     (case v of Array a \<Rightarrow> wf_array a \<and> shape a \<noteq> [] \<and> hd (shape a) = n | _ \<Rightarrow> False)"

definition is_input :: "string \<times> pyval \<Rightarrow> bool" where
  "is_input kv \<longleftrightarrow> fst kv \<noteq> ''__triton_context__''"

section \<open>Vocabulary of the grouping claims\<close>

text \<open>
  For a group key \<open>key\<close>: the group of a request is the list of all requests of the same
  key, in input order, and the position of the i-th request in its group is the number
  of earlier requests of the same key.  A wrapped stage returns on the groups when it
  raises on none of them, and returns one result per request when, on every group, it
  returns as many results as the group has requests.
\<close>

definition group_of :: "('q \<Rightarrow> 'k) \<Rightarrow> 'q list \<Rightarrow> 'q \<Rightarrow> 'q list" where
  "group_of key inputs r = filter (\<lambda>q. key q = key r) inputs"

definition position_in_group :: "('q \<Rightarrow> 'k) \<Rightarrow> 'q list \<Rightarrow> nat \<Rightarrow> nat" where
  "position_in_group key inputs i = length (filter (\<lambda>q. key q = key (inputs ! i)) (take i inputs))"

definition returns_on_groups :: "('q list \<Rightarrow> error + 'r list) \<Rightarrow> ('q \<Rightarrow> 'k) \<Rightarrow> 'q list \<Rightarrow> bool" where
  "returns_on_groups wrapped key inputs \<longleftrightarrow>
     list_all (\<lambda>r. case wrapped (group_of key inputs r) of Inl e \<Rightarrow> False | Inr out \<Rightarrow> True) inputs"

definition one_result_per_request ::
  "('q list \<Rightarrow> error + 'r list) \<Rightarrow> ('q \<Rightarrow> 'k) \<Rightarrow> 'q list \<Rightarrow> bool" where
  "one_result_per_request wrapped key inputs \<longleftrightarrow>
     list_all (\<lambda>r. case wrapped (group_of key inputs r) of
                     Inl e \<Rightarrow> False
                   | Inr out \<Rightarrow> length out = length (group_of key inputs r)) inputs"

text \<open>
  The group key of \<open>group_by_values\<close> as a function of the request; it is only read for
  requests whose grouping tensors all have a batch axis, where \<open>req_key\<close> does not raise.
  Two requests have the same unique values under a key when both lack the key, or both
  hold it and \<open>np.unique\<close> gives arrays of equal shape and equal flattened contents.
\<close>

definition value_tuple :: "string list \<Rightarrow> request \<Rightarrow> value_key" where
  "value_tuple ks r = (case req_key ks r of Inl e \<Rightarrow> [] | Inr k \<Rightarrow> k)"

definition batched_keys :: "string list \<Rightarrow> request \<Rightarrow> bool" where
  "batched_keys ks r \<longleftrightarrow>
     list_all (\<lambda>k. case map_of r k of None \<Rightarrow> True | Some a \<Rightarrow> shape a \<noteq> []) ks"

definition same_unique_values :: "string \<Rightarrow> request \<Rightarrow> request \<Rightarrow> bool" where
  "same_unique_values k r1 r2 \<longleftrightarrow>
     (case (map_of r1 k, map_of r2 k) of
        (None, None) \<Rightarrow> True
      | (Some a, Some b) \<Rightarrow>
          (case (np_unique a, np_unique b) of
             (Inr u, Inr v) \<Rightarrow> shape u = shape v \<and> flat u = flat v
           | _ \<Rightarrow> False)
      | _ \<Rightarrow> False)"

text \<open>
  The grouping tensors of a request are free of NaN when no tensor under a requested key
  holds a NaN, and a request is well formed when all its tensors are.  Two requests have
  the same value set under a key when both lack the key, or both hold it with tensors of
  the same shape behind axis 0 and the same set of rows.
\<close>

definition nan_free_keys :: "string list \<Rightarrow> request \<Rightarrow> bool" where
  "nan_free_keys ks r \<longleftrightarrow>
     list_all (\<lambda>k. case map_of r k of None \<Rightarrow> True | Some a \<Rightarrow> NaN \<notin> set (flat a)) ks"

definition wf_request :: "request \<Rightarrow> bool" where
  "wf_request r \<longleftrightarrow> list_all (\<lambda>kv. wf_array (snd kv)) r"

definition same_value_set :: "string \<Rightarrow> request \<Rightarrow> request \<Rightarrow> bool" where
  "same_value_set k r1 r2 \<longleftrightarrow>
     (case (map_of r1 k, map_of r2 k) of
        (None, None) \<Rightarrow> True
      | (Some a, Some b) \<Rightarrow> tl (shape a) = tl (shape b) \<and> set (rows a) = set (rows b)
      | _ \<Rightarrow> False)"

text \<open>
  The groups that \<open>group_by_values\<close> forms, as lists of request indices in call order:
  the runs of \<open>==\<close> keys in the list sorted by key.  A wrapped stage returns one result
  per request on groups given by index lists when, on the requests of every group, it
  returns as many results as the group has indices.
\<close>

definition value_groups :: "string list \<Rightarrow> request list \<Rightarrow> nat list list" where
  "value_groups ks inputs =
     (case tag_values ks 0 inputs of
        Inl e \<Rightarrow> []
      | Inr idx_inputs \<Rightarrow>
          map (\<lambda>kg. map fst (snd kg))
            (groupby value_key_eq (\<lambda>t. fst (snd t))
               (list_sort value_key_lt (\<lambda>t. fst (snd t)) idx_inputs)))"

definition one_result_per_group ::
  "('q list \<Rightarrow> error + 'r list) \<Rightarrow> 'q list \<Rightarrow> nat list list \<Rightarrow> bool" where
  "one_result_per_group wrapped inputs gs \<longleftrightarrow>
     list_all (\<lambda>g. case wrapped (map ((!) inputs) g) of
                     Inl e \<Rightarrow> False
                   | Inr out \<Rightarrow> length out = length g) gs"

section \<open>Vocabulary of the batching claim\<close>

text \<open>
  The local batch size of a request is the axis-0 length of its first input, which is
  what \<open>batch\<close> reads.  A request is uniform when it has an input and all its tensors
  have a batch axis of that length.  A request list is mergeable when it is non-empty,
  all key-sets equal the first request's, every request is uniform, and for every input
  name the tensors of all requests agree on the shape behind axis 0.  The merged input of
  a name is the concatenation along axis 0, in request order, of the tensors under that
  name; \<open>slice_of\<close> is the axis-0 slice of an array that has a batch axis.
\<close>

definition local_batch_sizes :: "request list \<Rightarrow> nat list" where
  "local_batch_sizes req_list = map (\<lambda>r. hd (shape (snd (hd r)))) req_list"

definition uniform_request :: "request \<Rightarrow> bool" where
  "uniform_request r \<longleftrightarrow>
     r \<noteq> [] \<and>
     list_all (\<lambda>kv. shape (snd kv) \<noteq> [] \<and> hd (shape (snd kv)) = hd (shape (snd (hd r)))) r"

definition tensors_of :: "request list \<Rightarrow> string \<Rightarrow> ndarray list" where
  "tensors_of req_list n = map (\<lambda>r. the (map_of r n)) req_list"

definition mergeable :: "request list \<Rightarrow> bool" where
  "mergeable req_list \<longleftrightarrow>
     req_list \<noteq> [] \<and>
     list_all (\<lambda>r. set (keys r) = set (keys (hd req_list))) req_list \<and>
     list_all uniform_request req_list \<and>
     list_all (\<lambda>n. list_all (\<lambda>a. tl (shape a) = tl (shape (hd (tensors_of req_list n))))
                     (tensors_of req_list n))
       (keys (hd req_list))"

definition merged_input :: "request list \<Rightarrow> string \<Rightarrow> ndarray" where
  "merged_input req_list n =
     NDArray (sum_list (map (\<lambda>a. hd (shape a)) (tensors_of req_list n))
                # tl (shape (hd (tensors_of req_list n))))
       (concat (map flat (tensors_of req_list n)))"

definition slice_of :: "ndarray \<Rightarrow> nat \<Rightarrow> nat \<Rightarrow> ndarray" where
  "slice_of a lo hi = (case slice_rows a lo hi of Inl e \<Rightarrow> a | Inr s \<Rightarrow> s)"

section \<open>Example inputs\<close>

text \<open>Concrete callables and configurations, for evaluating the decorators.\<close>

definition returns_two_outputs :: "kwargs \<Rightarrow> error + ndarray pyout" where
  "returns_two_outputs kw = Inr (PyList [NDArray [1] [Num 0], NDArray [1] [Num 0]])"

definition one_output_context :: TritonContext where
  "one_output_context =
     \<lparr>model_config = \<lparr>max_batch_size = 8, batcher = None, outputs = [\<lparr>name = ''y''\<rparr>]\<rparr>\<rparr>"

definition count_requests :: "request list \<Rightarrow> error + nat" where
  "count_requests reqs = Inr (length reqs)"

definition echo_kwargs :: "kwargs \<Rightarrow> error + kwargs" where
  "echo_kwargs kw = Inr kw"

definition preferred_four_context :: TritonContext where
  "preferred_four_context =
     \<lparr>model_config = \<lparr>max_batch_size = 8,
                       batcher = Some \<lparr>preferred_batch_size = Some [4]\<rparr>,
                       outputs = []\<rparr>\<rparr>"

definition describe_group :: "request list \<Rightarrow> error + (string list \<times> nat) list" where
  "describe_group sample_list = Inr (map (\<lambda>r. (keys r, length sample_list)) sample_list)"

definition three_requests :: "request list" where
  "three_requests =
     [[(''a'', NDArray [1] [Num 1]), (''b'', NDArray [1] [Num 2])],
      [(''a'', NDArray [1] [Num 3])],
      [(''b'', NDArray [1] [Num 2]), (''a'', NDArray [1] [Num 1])]]"

definition repeated_values :: "request list" where
  "repeated_values =
     [[(''t'', NDArray [2] [Num 7, Num 7])],
      [(''t'', NDArray [1] [Num 8])],
      [(''t'', NDArray [1] [Num 7])]]"

definition nan_between :: "request list" where
  "nan_between =
     [[(''t'', NDArray [1] [Num 1])],
      [(''t'', NDArray [1] [NaN])],
      [(''t'', NDArray [1] [Num 1])]]"

definition echo_x :: "kwargs \<Rightarrow> error + ndarray pyout" where
  "echo_x kw = (case map_of kw ''x'' of
                  Some (Array a) \<Rightarrow> Inr (PyDict [(''y'', a)])
                | _ \<Rightarrow> Inl KeyError)"

definition two_requests :: "request list" where
  "two_requests =
     [[(''x'', NDArray [2, 3] [Num 1, Num 2, Num 3, Num 4, Num 5, Num 6])],
      [(''x'', NDArray [1, 3] [Num 7, Num 8, Num 9])]]"

section \<open>Properties\<close>

subsection \<open>Lists, dicts and arrays\<close>

lemma setitem_fresh: "k \<notin> set (keys d) \<Longrightarrow> setitem d k v = d @ [(k, v)]"
  by (induction d) (auto simp: setitem_def keys_def)

lemma concat_chunks: "concat (map (\<lambda>i. take m (drop (i * m) xs)) [0..<s]) = take (s * m) xs"
proof (induction s)
  case 0
  then show ?case by simp
next
  case (Suc s)
  have "take (s * m) xs @ take m (drop (s * m) xs) = take (s * m + m) xs"
    by (simp add: take_add)
  then show ?case using Suc by (simp add: add.commute)
qed

lemma chunk_of_concat:
  "\<forall>r \<in> set rs. length r = m \<Longrightarrow> i < length rs \<Longrightarrow> take m (drop (i * m) (concat rs)) = rs ! i"
proof (induction rs arbitrary: i)
  case Nil
  then show ?case by simp
next
  case (Cons r rs)
  show ?case
  proof (cases i)
    case 0
    then show ?thesis using Cons.prems by simp
  next
    case (Suc j)
    then show ?thesis using Cons.prems Cons.IH[of j] by simp
  qed
qed

lemma tile_rows_ones:
  "length xs = prod_list ss \<Longrightarrow> tile_rows ss (replicate (length ss) (Suc 0)) xs = xs"
proof (induction ss arbitrary: xs)
  case Nil
  then show ?case by simp
next
  case (Cons s ss)
  have "map (\<lambda>i. tile_rows ss (replicate (length ss) (Suc 0))
                (take (prod_list ss) (drop (i * prod_list ss) xs))) [0..<s]
      = map (\<lambda>i. take (prod_list ss) (drop (i * prod_list ss) xs)) [0..<s]"
  proof (rule map_cong[OF refl])
    fix i assume "i \<in> set [0..<s]"
    then have "Suc i \<le> s" by simp
    then have "Suc i * prod_list ss \<le> s * prod_list ss" by (rule mult_le_mono1)
    then have "length (take (prod_list ss) (drop (i * prod_list ss) xs)) = prod_list ss"
      using Cons.prems by simp
    then show "tile_rows ss (replicate (length ss) (Suc 0))
                (take (prod_list ss) (drop (i * prod_list ss) xs))
             = take (prod_list ss) (drop (i * prod_list ss) xs)"
      by (rule Cons.IH)
  qed
  then have "tile_rows (s # ss) (replicate (length (s # ss)) (Suc 0)) xs
      = concat (map (\<lambda>i. take (prod_list ss) (drop (i * prod_list ss) xs)) [0..<s])"
    by (simp del: map_eq_conv)
  also have "\<dots> = take (s * prod_list ss) xs" by (rule concat_chunks)
  also have "\<dots> = xs" using Cons.prems by simp
  finally show ?case .
qed

lemma map2_times_ones: "map2 (*) ss (replicate (length ss) (Suc 0)) = ss"
  by (induction ss) auto

lemma np_tile_batch:
  assumes "wf_array val"
  shows "np_tile val ((replicate (length (shape val) + 1) 1)[0 := b])
       = NDArray (b # shape val) (concat (replicate b (flat val)))"
proof -
  have reps: "(replicate (length (shape val) + 1) 1)[0 := b] = b # replicate (length (shape val)) (Suc 0)"
    by simp
  show ?thesis
    unfolding reps np_tile_def
    using assms tile_rows_ones[of "flat val" "shape val"]
    by (simp add: Let_def max_def wf_array_def map2_times_ones)
qed

lemma fold_setitem_zip:
  "distinct (ks @ map fst acc) \<Longrightarrow> length ks = length vs \<Longrightarrow>
   fold (\<lambda>(k, v) acc. setitem acc k v) (zip ks vs) acc = acc @ zip ks vs"
proof (induction ks arbitrary: vs acc)
  case Nil
  then show ?case by simp
next
  case (Cons k ks)
  then obtain v vs' where vs: "vs = v # vs'" by (cases vs) auto
  have fresh: "k \<notin> fst ` set acc" using Cons.prems(1) by auto
  have upd: "setitem acc k v = acc @ [(k, v)]"
    using fresh by (induction acc) (auto simp: setitem_def)
  have "distinct (ks @ map fst (acc @ [(k, v)]))" using Cons.prems(1) by auto
  then show ?case using Cons.IH[of "acc @ [(k, v)]" vs'] Cons.prems(2) vs upd by simp
qed

subsection \<open>Output normalisation\<close>

text \<open>
  Claim C6.  \<open>convert_output\<close> returns a mapping argument unchanged.  For a list or a
  tuple, with the model configuration at hand (passed in, or bound to the caller) and
  its declared output names distinct, it raises a validation error when the length of
  the sequence differs from the number of declared outputs, and otherwise returns the
  mapping that pairs the i-th declared output name with the i-th element, in that order.
  For any other argument it raises a validation error.
\<close>

theorem convert_output_normalises:
  fixes outs :: "'v list" and d :: "'v dict"
  assumes cfg: "mc = Some cfg \<or> (mc = None \<and> caller = Some ctx \<and> model_config ctx = cfg)"
    and names: "distinct (map name (outputs cfg))"
    and seq: "seq = PyList outs \<or> seq = PyTuple outs"
  shows "convert_output (PyDict d) caller mc = Inr d
     \<and> convert_output seq caller mc =
         (if length outs \<noteq> length (outputs cfg) then Inl PytritonValidationError
          else Inr (zip (map name (outputs cfg)) outs))
     \<and> convert_output (PyOther :: 'v pyout) caller mc = Inl PytritonValidationError"
proof -
  have z: "zip_outputs cfg outs =
         (if length outs \<noteq> length (outputs cfg) then Inl PytritonValidationError
          else Inr (zip (map name (outputs cfg)) outs))"
  proof (cases "length outs = length (outputs cfg)")
    case True
    have "fold (\<lambda>(k, v) acc. setitem acc k v) (zip (map name (outputs cfg)) outs) [] =
          [] @ zip (map name (outputs cfg)) outs"
      by (rule fold_setitem_zip) (use names True in auto)
    moreover have
      "fold (\<lambda>(config_output, output) acc. setitem acc (name config_output) output)
         (zip (outputs cfg) outs) [] =
       fold (\<lambda>(k, v) acc. setitem acc k v) (zip (map name (outputs cfg)) outs) ([] :: 'v dict)"
      by (simp add: zip_map1 fold_map comp_def case_prod_unfold)
    ultimately show ?thesis using True by (simp add: zip_outputs_def)
  next
    case False
    then show ?thesis by (simp add: zip_outputs_def)
  qed
  have "convert_sequence outs caller mc = zip_outputs cfg outs"
    using cfg by (auto simp: convert_sequence_def get_model_config_def get_triton_context_def)
  then show ?thesis using z seq by auto
qed

theorem convert_output_normalises_witness:
  "convert_output (PyTuple [NDArray [1] [Num 10], NDArray [1] [Num 20]]) None
      (Some \<lparr>max_batch_size = 8, batcher = None,
              outputs = [\<lparr>name = ''y''\<rparr>, \<lparr>name = ''z''\<rparr>]\<rparr>)
     = Inr [(''y'', NDArray [1] [Num 10]), (''z'', NDArray [1] [Num 20])]
   \<and> convert_output (PyList [NDArray [1] [Num 10]]) None
      (Some \<lparr>max_batch_size = 8, batcher = None,
              outputs = [\<lparr>name = ''y''\<rparr>, \<lparr>name = ''z''\<rparr>]\<rparr>)
     = Inl PytritonValidationError"
  using
    convert_output_normalises[of
      "Some \<lparr>max_batch_size = 8, batcher = None,
              outputs = [\<lparr>name = ''y''\<rparr>, \<lparr>name = ''z''\<rparr>]\<rparr>"
      "\<lparr>max_batch_size = 8, batcher = None,
         outputs = [\<lparr>name = ''y''\<rparr>, \<lparr>name = ''z''\<rparr>]\<rparr>"
      None undefined
      "PyTuple [NDArray [1] [Num 10], NDArray [1] [Num 20]]" "[NDArray [1] [Num 10], NDArray [1] [Num 20]]"]
    convert_output_normalises[of
      "Some \<lparr>max_batch_size = 8, batcher = None,
              outputs = [\<lparr>name = ''y''\<rparr>, \<lparr>name = ''z''\<rparr>]\<rparr>"
      "\<lparr>max_batch_size = 8, batcher = None,
         outputs = [\<lparr>name = ''y''\<rparr>, \<lparr>name = ''z''\<rparr>]\<rparr>"
      None undefined
      "PyList [NDArray [1] [Num 10]]" "[NDArray [1] [Num 10]]"]
  by simp

subsection \<open>The precondition check of \<open>batch\<close>\<close>

lemma gather_error: "gather k reqs = Inl e \<Longrightarrow> e = KeyError"
  by (induction reqs arbitrary: e) (auto simp: getitem_def split: option.splits sum.splits)

lemma np_concatenate_error: "np_concatenate arrs = Inl e \<Longrightarrow> e = ValueError"
  by (auto simp: np_concatenate_def split: list.splits if_splits)

lemma merge_inputs_error:
  "merge_inputs names reqs acc = Inl e \<Longrightarrow> e = KeyError \<or> e = ValueError"
  by (induction names arbitrary: acc)
     (auto split: sum.splits dest: gather_error np_concatenate_error)

text \<open>
  Claim C3, as stated, fails: \<open>batch\<close> also raises a validation error when all key-sets
  agree, namely when the wrapped callable returns a sequence whose length differs from
  the number of declared outputs (the error comes from \<open>convert_output\<close>, after the call).
  Here both requests have the key-set \<open>{x}\<close>, the callable returns two outputs and the
  configuration declares one.
\<close>

theorem batch_validation_counterexample:
  "snd (batch returns_two_outputs (Some one_output_context)
          [[(''x'', NDArray [1] [Num 5])], [(''x'', NDArray [1] [Num 6])]] [])
     = Inl PytritonValidationError
   \<and> \<not> list_ex (\<lambda>r. set (keys r) \<noteq> set (keys [(''x'', NDArray [1] [Num 5])]))
          [[(''x'', NDArray [1] [Num 6])]]"
  by (simp add: batch_def returns_two_outputs_def one_output_context_def keys_def
      np_concatenate_def getitem_def setitem_def dict_update_def convert_sequence_def
      get_model_config_def get_triton_context_def zip_outputs_def)

text \<open>
  Claim C3, amended.  \<open>batch\<close> raises a validation error without having called the
  wrapped callable if and only if some request of the list has a key-set, compared
  order-independently, that differs from the first request's key-set.
\<close>

theorem batch_validation_before_call:
  "batch wrapped caller req_list kwargs = ([], Inl PytritonValidationError) \<longleftrightarrow>
   (\<exists>r \<in> set (tl req_list). set (keys r) \<noteq> set (keys (hd req_list)))"
proof (cases req_list)
  case Nil
  then show ?thesis by (simp add: batch_def)
next
  case (Cons req0 others)
  show ?thesis
  proof (cases "list_ex (\<lambda>r. set (keys req0) \<noteq> set (keys r)) others")
    case True
    then show ?thesis using Cons by (auto simp: batch_def list_ex_iff)
  next
    case False
    have "batch wrapped caller req_list kwargs \<noteq> ([], Inl PytritonValidationError)"
      using Cons False
      by (auto simp: batch_def Let_def split: sum.splits dest: merge_inputs_error)
    then show ?thesis using Cons False by (auto simp: list_ex_iff)
  qed
qed

theorem batch_validation_before_call_witness:
  "batch returns_two_outputs None [[(''x'', NDArray [1] [Num 5])], [(''y'', NDArray [1] [Num 5])]] []
     = ([], Inl PytritonValidationError)"
  using batch_validation_before_call[of returns_two_outputs None
      "[[(''x'', NDArray [1] [Num 5])], [(''y'', NDArray [1] [Num 5])]]" "[]"]
  by (simp add: keys_def)

subsection \<open>\<open>first_value\<close> on a one-dimensional input\<close>

text \<open>
  Claim C9 at a batch of plain scalars: for the keyword argument \<open>a = np.array([5, 6])\<close>
  the first row \<open>a[0]\<close> is a NumPy scalar of shape \<open>()\<close>, the call \<open>max(res.shape)\<close> raises
  \<open>ValueError\<close>, and the wrapped callable is never reached.  On inputs with a second axis
  the decorator does what the claim says: a first row of shape \<open>(1,)\<close> is collapsed to the
  scalar, a first row of shape \<open>(3,)\<close> is passed on as an array.
\<close>

theorem first_value_one_dimensional_raises:
  "first_value [''a''] wrapped [(''a'', Array (NDArray [2] [Num 5, Num 6]))] = ([], Inl ValueError)
   \<and> first_value [''a''] wrapped [(''a'', Array (NDArray [2, 1] [Num 5, Num 6]))]
       = ([[(''a'', Item (Num 5))]], wrapped [(''a'', Item (Num 5))])
   \<and> first_value [''a''] wrapped [(''a'', Array (NDArray [2, 3] [Num 1, Num 2, Num 3, Num 4, Num 5, Num 6]))]
       = ([[(''a'', Array (NDArray [3] [Num 1, Num 2, Num 3]))]],
          wrapped [(''a'', Array (NDArray [3] [Num 1, Num 2, Num 3]))])"
  by (simp add: first_value_def getitem_def val_index0_def index0_def item_def setitem_def
      dict_update_def Let_def)

subsection \<open>\<open>fill_optionals\<close>\<close>

lemma fold_fill_default:
  "\<exists>added. fold (fill_default b) defaults request = request @ added
     \<and> set (keys added) \<subseteq> set (keys defaults) - set (keys request)
     \<and> (\<forall>k val. map_of defaults k = Some val \<longrightarrow> k \<notin> set (keys request) \<longrightarrow>
          map_of added k
            = Some (np_tile val ((replicate (length (shape val) + 1) 1)[0 := b])))"
proof (induction defaults arbitrary: request)
  case Nil
  then show ?case by (simp add: keys_def)
next
  case (Cons kv defaults)
  obtain k0 v0 where kv: "kv = (k0, v0)" by (cases kv)
  show ?case
  proof (cases "k0 \<in> set (keys request)")
    case True
    then have step: "fill_default b kv request = request" by (simp add: fill_default_def kv)
    from Cons.IH[of request] obtain added where
      a: "fold (fill_default b) defaults request = request @ added"
         "set (keys added) \<subseteq> set (keys defaults) - set (keys request)"
         "\<forall>k val. map_of defaults k = Some val \<longrightarrow> k \<notin> set (keys request) \<longrightarrow>
            map_of added k
              = Some (np_tile val ((replicate (length (shape val) + 1) 1)[0 := b]))"
      by blast
    have "\<forall>k val. map_of (kv # defaults) k = Some val \<longrightarrow> k \<notin> set (keys request) \<longrightarrow>
            map_of added k
              = Some (np_tile val ((replicate (length (shape val) + 1) 1)[0 := b]))"
      using a(3) True by (auto simp: kv)
    moreover have "set (keys added) \<subseteq> set (keys (kv # defaults)) - set (keys request)"
      using a(2) by (auto simp: keys_def)
    ultimately show ?thesis using a(1) step by auto
  next
    case False
    define t where "t = np_tile v0 ((replicate (length (shape v0) + 1) 1)[0 := b])"
    have step: "fill_default b kv request = request @ [(k0, t)]"
      using False by (simp add: fill_default_def kv setitem_fresh t_def)
    from Cons.IH[of "request @ [(k0, t)]"] obtain added where
      a: "fold (fill_default b) defaults (request @ [(k0, t)]) = (request @ [(k0, t)]) @ added"
         "set (keys added) \<subseteq> set (keys defaults) - set (keys (request @ [(k0, t)]))"
         "\<forall>k val. map_of defaults k = Some val \<longrightarrow> k \<notin> set (keys (request @ [(k0, t)])) \<longrightarrow>
            map_of added k
              = Some (np_tile val ((replicate (length (shape val) + 1) 1)[0 := b]))"
      by blast
    have 1: "fold (fill_default b) (kv # defaults) request = request @ ((k0, t) # added)"
      using a(1) step by simp
    have 2: "set (keys ((k0, t) # added)) \<subseteq> set (keys (kv # defaults)) - set (keys request)"
      using a(2) False by (auto simp: keys_def kv)
    have 3: "\<forall>k val. map_of (kv # defaults) k = Some val \<longrightarrow> k \<notin> set (keys request) \<longrightarrow>
            map_of ((k0, t) # added) k
              = Some (np_tile val ((replicate (length (shape val) + 1) 1)[0 := b]))"
      using a(3) by (auto simp: kv t_def keys_def)
    show ?thesis using 1 2 3 by blast
  qed
qed

lemma fill_request_Inr:
  assumes "fill_request defaults request = Inr filled"
  shows "request \<noteq> [] \<and> shape (snd (hd request)) \<noteq> []
       \<and> filled = fold (fill_default (hd (shape (snd (hd request))))) defaults request"
  using assms
  by (auto simp: fill_request_def shape0_def split: list.splits sum.splits)

lemma fill_request_total:
  assumes "request \<noteq> []" "shape (snd (hd request)) \<noteq> []"
  shows "fill_request defaults request
       = Inr (fold (fill_default (hd (shape (snd (hd request))))) defaults request)"
  using assms
  by (auto simp: fill_request_def shape0_def split: list.splits sum.splits)

lemma fill_requests_nth:
  "fill_requests defaults reqs = Inr filled \<Longrightarrow>
   length filled = length reqs \<and>
   (\<forall>i<length reqs. fill_request defaults (reqs ! i) = Inr (filled ! i))"
proof (induction reqs arbitrary: filled)
  case Nil
  then show ?case by simp
next
  case (Cons r reqs)
  then obtain f fs where
    f: "fill_request defaults r = Inr f" "fill_requests defaults reqs = Inr fs" "filled = f # fs"
    by (auto split: sum.splits)
  show ?case using Cons.IH[OF f(2)] f(1,3) by (auto simp: nth_Cons split: nat.splits)
qed

lemma fill_requests_total:
  "list_all (\<lambda>r. r \<noteq> [] \<and> shape (snd (hd r)) \<noteq> []) reqs \<Longrightarrow>
   \<exists>filled. fill_requests defaults reqs = Inr filled"
  by (induction reqs) (auto simp: fill_request_total)

text \<open>
  Claim C8.  Whenever \<open>fill_optionals\<close> reaches the wrapped stage, it calls it exactly once,
  with a list of the same length as the input list, whose i-th request is the i-th input
  request followed by added entries: every added key is a default key that the request
  lacked, no key is removed, and every key already present (a default key or not) keeps
  its value.
\<close>

theorem fill_optionals_frame:
  assumes run: "fill_optionals defaults wrapped req_list = (calls, res)"
    and called: "calls \<noteq> []"
  shows "\<exists>filled. calls = [filled] \<and> res = wrapped filled
       \<and> length filled = length req_list
       \<and> (\<forall>i<length req_list. \<exists>added.
             filled ! i = req_list ! i @ added
           \<and> set (keys added) \<subseteq> set (keys defaults) - set (keys (req_list ! i))
           \<and> (\<forall>k \<in> set (keys (req_list ! i)).
                 map_of (filled ! i) k = map_of (req_list ! i) k))"
proof -
  from run called obtain filled where
    f: "fill_requests defaults req_list = Inr filled" "calls = [filled]" "res = wrapped filled"
    by (auto simp: fill_optionals_def split: sum.splits)
  note n = fill_requests_nth[OF f(1)]
  have "\<exists>added. filled ! i = req_list ! i @ added
           \<and> set (keys added) \<subseteq> set (keys defaults) - set (keys (req_list ! i))
           \<and> (\<forall>k \<in> set (keys (req_list ! i)).
                 map_of (filled ! i) k = map_of (req_list ! i) k)"
    if i: "i < length req_list" for i
  proof -
    from n i have "fill_request defaults (req_list ! i) = Inr (filled ! i)" by simp
    from fill_request_Inr[OF this] obtain b where
      "filled ! i = fold (fill_default b) defaults (req_list ! i)" by blast
    with fold_fill_default[of b defaults "req_list ! i"] obtain added where
      a: "filled ! i = req_list ! i @ added"
         "set (keys added) \<subseteq> set (keys defaults) - set (keys (req_list ! i))"
      by auto
    have "map_of (filled ! i) k = map_of (req_list ! i) k"
      if "k \<in> set (keys (req_list ! i))" for k
    proof -
      from that obtain v where "map_of (req_list ! i) k = Some v"
        by (cases "map_of (req_list ! i) k") (auto simp: keys_def map_of_eq_None_iff)
      then show ?thesis by (simp add: a(1) map_add_def)
    qed
    then show ?thesis using a by blast
  qed
  then show ?thesis using f n by blast
qed

text \<open>
  Claim C7.  Let every request have at least one input, the first of them with a batch
  axis.  Then \<open>fill_optionals\<close> calls the wrapped stage once, and for the i-th request and
  every default key \<open>k\<close> absent from it, the request passed on holds under \<open>k\<close> a tensor
  whose shape is the batch size of the request's first input followed by the shape of
  the default value, and whose every row is the default value.
\<close>

theorem fill_optionals_fills:
  assumes reqs: "list_all (\<lambda>r. r \<noteq> [] \<and> shape (snd (hd r)) \<noteq> []) req_list"
    and i: "i < length req_list"
    and dflt: "map_of defaults k = Some val"
    and absent: "k \<notin> set (keys (req_list ! i))"
    and wf: "wf_array val"
  shows "\<exists>filled t.
           fill_optionals defaults wrapped req_list = ([filled], wrapped filled)
         \<and> length filled = length req_list
         \<and> map_of (filled ! i) k = Some t
         \<and> shape t = hd (shape (snd (hd (req_list ! i)))) # shape val
         \<and> (\<forall>j < hd (shape (snd (hd (req_list ! i)))). row t j = flat val)"
proof -
  define b where "b = hd (shape (snd (hd (req_list ! i))))"
  define t where "t = NDArray (b # shape val) (concat (replicate b (flat val)))"
  from fill_requests_total[OF reqs] obtain filled where
    f: "fill_requests defaults req_list = Inr filled" by blast
  note n = fill_requests_nth[OF f]
  from n i have "fill_request defaults (req_list ! i) = Inr (filled ! i)" by simp
  from fill_request_Inr[OF this] have
    fi: "filled ! i = fold (fill_default b) defaults (req_list ! i)" by (simp add: b_def)
  from fold_fill_default[of b defaults "req_list ! i"] obtain added where
    a: "fold (fill_default b) defaults (req_list ! i) = req_list ! i @ added"
       "map_of added k = Some (np_tile val ((replicate (length (shape val) + 1) 1)[0 := b]))"
    using dflt absent by blast
  have none: "map_of (req_list ! i) k = None"
    using absent by (simp add: keys_def map_of_eq_None_iff)
  have look: "map_of (filled ! i) k = Some t"
    using a none np_tile_batch[OF wf, of b] by (simp add: fi map_add_def t_def)
  have rows: "row t j = flat val" if "j < b" for j
  proof -
    have "take (length (flat val)) (drop (j * length (flat val)) (concat (replicate b (flat val))))
        = replicate b (flat val) ! j"
      by (rule chunk_of_concat) (use that in auto)
    then show ?thesis using wf that by (simp add: row_def row_size_def t_def wf_array_def)
  qed
  have "fill_optionals defaults wrapped req_list = ([filled], wrapped filled)"
    using f by (simp add: fill_optionals_def)
  then show ?thesis using n look rows by (auto simp: t_def b_def)
qed

theorem fill_optionals_frame_witness:
  "fill_optionals [(''t'', NDArray [] [Num 7])] count_requests [[(''x'', NDArray [2] [Num 1, Num 2])]]
     = ([[[(''x'', NDArray [2] [Num 1, Num 2]), (''t'', NDArray [2] [Num 7, Num 7])]]], Inr 1)
   \<and> (\<exists>added. [(''x'', NDArray [2] [Num 1, Num 2]), (''t'', NDArray [2] [Num 7, Num 7])]
                = [(''x'', NDArray [2] [Num 1, Num 2])] @ added
              \<and> set (keys added) \<subseteq> {''t''} - {''x''})"
proof -
  have run: "fill_optionals [(''t'', NDArray [] [Num 7])] count_requests [[(''x'', NDArray [2] [Num 1, Num 2])]]
     = ([[[(''x'', NDArray [2] [Num 1, Num 2]), (''t'', NDArray [2] [Num 7, Num 7])]]], Inr 1)"
    by code_simp
  have called: "[[[(''x'', NDArray [2] [Num 1, Num 2]), (''t'', NDArray [2] [Num 7, Num 7])]]] \<noteq> []"
    by simp
  from fill_optionals_frame[OF run called] show ?thesis
    using run by (auto simp: keys_def)
qed

theorem fill_optionals_fills_witness:
  "\<exists>filled t.
     fill_optionals [(''t'', NDArray [] [Num 7])] count_requests [[(''x'', NDArray [2] [Num 1, Num 2])]]
       = ([filled], count_requests filled)
   \<and> map_of (filled ! 0) ''t'' = Some t
   \<and> shape t = [2]
   \<and> row t 0 = [Num 7] \<and> row t 1 = [Num 7]"
proof -
  have 1: "list_all (\<lambda>r. r \<noteq> [] \<and> shape (snd (hd r)) \<noteq> []) [[(''x'', NDArray [2] [Num 1, Num 2])]]"
    by simp
  have 2: "(0::nat) < length [[(''x'', NDArray [2] [Num 1, Num 2])]]" by simp
  have 3: "map_of [(''t'', NDArray [] [Num 7])] ''t'' = Some (NDArray [] [Num 7])" by simp
  have 4: "''t'' \<notin> set (keys ([[(''x'', NDArray [2] [Num 1, Num 2])]] ! 0))" by (simp add: keys_def)
  have 5: "wf_array (NDArray [] [Num 7])" by (simp add: wf_array_def)
  from fill_optionals_fills[OF 1 2 3 4 5, of count_requests] show ?thesis
    by (auto simp: numeral_2_eq_2)
qed

subsection \<open>\<open>pad_batch\<close>\<close>

declare bisect_loop.simps [simp del]

lemma bisect_loop_spec:
  "sorted a \<Longrightarrow> lo \<le> hi \<Longrightarrow> hi \<le> length a \<Longrightarrow> \<forall>i<lo. a ! i < x \<Longrightarrow>
   \<forall>i. hi \<le> i \<longrightarrow> i < length a \<longrightarrow> x \<le> a ! i \<Longrightarrow>
   bisect_loop a x lo hi \<le> hi \<and>
   (\<forall>i<bisect_loop a x lo hi. a ! i < x) \<and>
   (\<forall>i. bisect_loop a x lo hi \<le> i \<longrightarrow> i < length a \<longrightarrow> x \<le> a ! i)"
proof (induction a x lo hi rule: bisect_loop.induct)
  case (1 a x lo hi)
  show ?case
  proof (cases "lo < hi")
    case False
    then have "bisect_loop a x lo hi = lo" by (subst bisect_loop.simps) simp
    moreover have "lo = hi" using False "1.prems"(2) by simp
    ultimately show ?thesis using "1.prems" by simp
  next
    case True
    define mid where "mid = (lo + hi) div 2"
    have mid: "lo \<le> mid" "mid < hi" using True by (auto simp: mid_def)
    show ?thesis
    proof (cases "a ! mid < x")
      case less: True
      have eq: "bisect_loop a x lo hi = bisect_loop a x (mid + 1) hi"
        using True less by (subst bisect_loop.simps) (simp add: mid_def Let_def)
      have below: "\<forall>i<mid + 1. a ! i < x"
      proof (intro allI impI)
        fix i assume "i < mid + 1"
        then have "a ! i \<le> a ! mid"
          using "1.prems"(1,3) mid by (intro sorted_nth_mono) auto
        then show "a ! i < x" using less by simp
      qed
      have "bisect_loop a x (mid + 1) hi \<le> hi \<and>
            (\<forall>i<bisect_loop a x (mid + 1) hi. a ! i < x) \<and>
            (\<forall>i. bisect_loop a x (mid + 1) hi \<le> i \<longrightarrow> i < length a \<longrightarrow> x \<le> a ! i)"
        using "1.IH"(1)[OF True mid_def less "1.prems"(1) _ "1.prems"(3) below "1.prems"(5)] mid
        by simp
      then show ?thesis by (simp add: eq)
    next
      case geq: False
      have eq: "bisect_loop a x lo hi = bisect_loop a x lo mid"
        using True geq by (subst bisect_loop.simps) (simp add: mid_def Let_def)
      have above: "\<forall>i. mid \<le> i \<longrightarrow> i < length a \<longrightarrow> x \<le> a ! i"
      proof (intro allI impI)
        fix i assume "mid \<le> i" "i < length a"
        then have "a ! mid \<le> a ! i"
          using "1.prems"(1) by (intro sorted_nth_mono) auto
        then show "x \<le> a ! i" using geq by simp
      qed
      have "bisect_loop a x lo mid \<le> mid \<and>
            (\<forall>i<bisect_loop a x lo mid. a ! i < x) \<and>
            (\<forall>i. bisect_loop a x lo mid \<le> i \<longrightarrow> i < length a \<longrightarrow> x \<le> a ! i)"
        using "1.IH"(2)[OF True mid_def geq "1.prems"(1) _ _ "1.prems"(4) above] mid "1.prems"(3)
        by simp
      then show ?thesis using mid by (simp add: eq)
    qed
  qed
qed

lemma bisect_left_least:
  assumes "sorted a" "a \<noteq> []" "x \<le> last a"
  shows "bisect_left a x < length a \<and> x \<le> a ! bisect_left a x \<and>
         (\<forall>p \<in> set a. x \<le> p \<longrightarrow> a ! bisect_left a x \<le> p)"
proof -
  let ?r = "bisect_left a x"
  have spec: "?r \<le> length a" "\<forall>i<?r. a ! i < x" "\<forall>i. ?r \<le> i \<longrightarrow> i < length a \<longrightarrow> x \<le> a ! i"
    using bisect_loop_spec[of a 0 "length a" x] assms(1) by (auto simp: bisect_left_def)
  have lt: "?r < length a"
  proof (rule ccontr)
    assume "\<not> ?r < length a"
    then have "?r = length a" using spec(1) by simp
    then have "a ! (length a - 1) < x" using spec(2) assms(2) by simp
    then show False using assms(2,3) by (simp add: last_conv_nth)
  qed
  have least: "a ! ?r \<le> p" if "p \<in> set a" "x \<le> p" for p
  proof -
    from that(1) obtain j where j: "j < length a" "a ! j = p" by (auto simp: in_set_conv_nth)
    have "?r \<le> j" using spec(2) j that(2) by (meson not_le_imp_less not_less)
    then show ?thesis using sorted_nth_mono[OF assms(1) _ j(1)] j(2) by simp
  qed
  show ?thesis using lt spec(3) least by auto
qed

lemma length_row:
  assumes "wf_array a" "shape a = n # rest" "i < n"
  shows "length (row a i) = prod_list rest"
proof -
  have "Suc i * prod_list rest \<le> n * prod_list rest"
    using assms(3) by (intro mult_le_mono1) simp
  then show ?thesis using assms(1,2) by (simp add: row_def row_size_def wf_array_def)
qed

lemma concat_rows:
  assumes "wf_array a" "shape a = n # rest"
  shows "concat (rows a) = flat a"
  using assms concat_chunks[of "prod_list rest" "flat a" n]
  by (simp add: rows_def row_def[abs_def] row_size_def wf_array_def)

lemma repeat_ones:
  "length ys = k \<Longrightarrow>
   concat (map2 (\<lambda>c r. replicate (nat c) r) (replicate k (1::int)) ys) = ys"
  by (induction ys arbitrary: k) auto

lemma np_repeat_last:
  assumes sh: "shape a = n # rest" and n: "1 \<le> n" and c: "0 \<le> c"
  shows "np_repeat a (replicate (n - 1) 1 @ [c])
       = Inr (NDArray ((n - 1 + nat c) # rest)
               (concat (map (row a) [0..<n - 1] @ replicate (nat c) (row a (n - 1)))))"
proof -
  let ?counts = "replicate (n - 1) (1::int) @ [c]"
  have cs: "(if length ?counts = 1 then replicate n (hd ?counts) else ?counts) = ?counts"
    using n by (cases "n = 1") auto
  have upt: "[0..<n] = [0..<n - 1] @ [n - 1]"
    using n by (metis le_add_diff_inverse2 add.commute plus_1_eq_Suc upt_Suc_append zero_le)
  have rows: "rows a = map (row a) [0..<n - 1] @ [row a (n - 1)]"
    unfolding rows_def sh list.sel by (subst upt) simp
  have rs: "concat (map2 (\<lambda>c r. replicate (nat c) r) ?counts (rows a))
          = map (row a) [0..<n - 1] @ replicate (nat c) (row a (n - 1))"
    unfolding rows by (simp add: repeat_ones)
  have neg: "\<not> list_ex (\<lambda>c. c < 0) ?counts" using c by (auto simp: list_ex_iff)
  have len: "length ?counts = n" using n by simp
  show ?thesis
    unfolding np_repeat_def sh list.case Let_def cs
    using neg len by (simp only: rs if_False simp_thms length_append length_map length_upt
        length_replicate minus_nat.diff_0)
qed

lemma pad_array_spec:
  assumes v: "has_batch_size n v" and n: "1 \<le> n" and t: "int n \<le> t"
  shows "\<exists>a a'. v = Array a \<and> pad_array t v = Inr (Array a')
           \<and> shape a' = nat t # tl (shape a)
           \<and> (\<forall>i<n - 1. row a' i = row a i)
           \<and> (\<forall>i. n - 1 \<le> i \<longrightarrow> i < nat t \<longrightarrow> row a' i = row a (n - 1))
           \<and> (t = int n \<longrightarrow> a' = a)"
proof -
  from v obtain a where a0: "v = Array a" "wf_array a" "shape a \<noteq> []" "hd (shape a) = n"
    by (cases v) (auto simp: has_batch_size_def)
  then obtain rest where "shape a = n # rest" by (cases "shape a") auto
  note a = a0(1,2) this
  define rs where "rs = map (row a) [0..<n - 1] @ replicate (nat (t - int n + 1)) (row a (n - 1))"
  define a' where "a' = NDArray ((n - 1 + nat (t - int n + 1)) # rest) (concat rs)"
  have c: "0 \<le> t - int n + 1" using t by simp
  have nn: "nat (int n - 1) = n - 1" by simp
  have pad: "pad_array t v = Inr (Array a')"
    using np_repeat_last[OF a(3) n c] n
    by (simp add: pad_array_def a shape0_def repeat_counts_def a'_def rs_def nn)
  have len: "n - 1 + nat (t - int n + 1) = nat t" using n t by linarith
  have sh: "shape a' = nat t # tl (shape a)" unfolding a'_def len by (simp add: a(3))
  have lens: "\<forall>r \<in> set rs. length r = prod_list rest"
    using n by (auto simp: rs_def length_row[OF a(2,3)])
  have "length rs = n - 1 + nat (t - int n + 1)" by (simp add: rs_def)
  then have lrs: "length rs = nat t" by (simp only: len)
  have row: "row a' i = rs ! i" if "i < nat t" for i
    using chunk_of_concat[OF lens, of i] that lrs by (simp add: row_def row_size_def a'_def)
  have r1: "row a' i = row a i" if "i < n - 1" for i
  proof -
    have "i < nat t" using that t by linarith
    then have "row a' i = rs ! i" by (rule row)
    also have "\<dots> = row a i" using that by (simp add: rs_def nth_append)
    finally show ?thesis .
  qed
  have r2: "row a' i = row a (n - 1)" if "n - 1 \<le> i" "i < nat t" for i
  proof -
    have "row a' i = rs ! i" using that(2) by (rule row)
    also have "\<dots> = row a (n - 1)" using that len by (simp add: rs_def nth_append)
    finally show ?thesis .
  qed
  have same: "a' = a" if "t = int n"
  proof -
    have "[0..<n] = [0..<n - 1] @ [n - 1]"
      using n by (metis le_add_diff_inverse2 add.commute plus_1_eq_Suc upt_Suc_append zero_le)
    then have "rs = rows a" using that by (simp add: rs_def rows_def a(3))
    then have "concat rs = flat a" using concat_rows[OF a(2,3)] by simp
    moreover have "n - 1 + nat (t - int n + 1) = n" using that n by simp
    ultimately show ?thesis using a(3) by (cases a) (simp add: a'_def)
  qed
  show ?thesis using a(1) pad sh r1 r2 same by blast
qed

lemma pad_inputs_map:
  "list_all (\<lambda>kv. pad_array t (snd kv) = Inr (f (snd kv))) inputs \<Longrightarrow>
   pad_inputs t inputs = Inr (map (\<lambda>kv. (fst kv, f (snd kv))) inputs)"
  by (induction inputs) auto

lemma fold_setitem_other:
  "k \<notin> fst ` set e \<Longrightarrow>
   fold (\<lambda>(k, v) acc. setitem acc k v) e ((k, v) # d)
     = (k, v) # fold (\<lambda>(k, v) acc. setitem acc k v) e d"
  by (induction e arbitrary: d) (auto simp: setitem_def)

lemma dict_update_filter_map:
  "distinct (keys d) \<Longrightarrow>
   dict_update d (map (\<lambda>kv. (fst kv, g (snd kv))) (filter P d))
     = map (\<lambda>kv. if P kv then (fst kv, g (snd kv)) else kv) d"
proof (induction d)
  case Nil
  then show ?case by (simp add: dict_update_def)
next
  case (Cons kv d)
  obtain k v where kv: "kv = (k, v)" by (cases kv)
  have fresh: "k \<notin> fst ` set (map (\<lambda>kv. (fst kv, g (snd kv))) (filter P d))"
    using Cons.prems by (force simp: keys_def kv)
  have IH: "fold (\<lambda>(k, v) acc. setitem acc k v) (map (\<lambda>kv. (fst kv, g (snd kv))) (filter P d)) d
     = map (\<lambda>kv. if P kv then (fst kv, g (snd kv)) else kv) d"
    using Cons by (simp add: dict_update_def keys_def)
  show ?case
    using fold_setitem_other[OF fresh] IH
    by (simp add: dict_update_def kv setitem_def)
qed

lemma pad_batch_closed_form:
  assumes ctx: "caller = Some c"
    and policy: "sorted (batch_sizes_of (model_config c))"
    and dist: "distinct (keys kwargs)"
    and inputs: "list_all (\<lambda>kv. is_input kv \<longrightarrow> has_batch_size n (snd kv)) kwargs"
    and some: "list_ex is_input kwargs"
    and n: "1 \<le> n" and max: "int n \<le> max_batch_size (model_config c)"
  shows "pad_batch wrapped caller kwargs =
          ([map (\<lambda>kv. if is_input kv
                        then (fst kv, projr (pad_array
                                (batch_sizes_of (model_config c)
                                   ! bisect_left (batch_sizes_of (model_config c)) (int n)) (snd kv)))
                        else kv) kwargs],
           wrapped (map (\<lambda>kv. if is_input kv
                        then (fst kv, projr (pad_array
                                (batch_sizes_of (model_config c)
                                   ! bisect_left (batch_sizes_of (model_config c)) (int n)) (snd kv)))
                        else kv) kwargs))"
proof -
  let ?pol = "batch_sizes_of (model_config c)"
  let ?t = "?pol ! bisect_left ?pol (int n)"
  have filt: "filter (\<lambda>(k, v). k \<noteq> ''__triton_context__'') kwargs = filter is_input kwargs"
    by (rule filter_cong) (auto simp: is_input_def)
  from some obtain kv0 later where ne: "filter is_input kwargs = kv0 # later"
    by (cases "filter is_input kwargs") (auto simp: list_ex_iff filter_empty_conv)
  then have "kv0 \<in> set (filter is_input kwargs)" by simp
  then have "has_batch_size n (snd kv0)" using inputs by (auto simp: list_all_iff)
  then have first: "val_shape0 (snd kv0) = Inr n"
    by (cases "snd kv0") (auto simp: has_batch_size_def val_shape0_def shape0_def split: list.splits)
  have last: "last ?pol = max_batch_size (model_config c)" "?pol \<noteq> []"
    by (simp_all add: batch_sizes_of_def)
  from bisect_left_least[OF policy last(2)] max last(1)
  have b: "bisect_left ?pol (int n) < length ?pol" "int n \<le> ?t" by auto
  have "list_all (\<lambda>kv. pad_array ?t (snd kv) = Inr (projr (pad_array ?t (snd kv))))
          (filter is_input kwargs)"
    unfolding list_all_iff
  proof
    fix kv assume "kv \<in> set (filter is_input kwargs)"
    then have "has_batch_size n (snd kv)" using inputs by (auto simp: list_all_iff)
    from pad_array_spec[OF this n b(2)] show "pad_array ?t (snd kv) = Inr (projr (pad_array ?t (snd kv)))"
      by auto
  qed
  from pad_inputs_map[OF this]
  have pi: "pad_inputs ?t (filter is_input kwargs)
              = Inr (map (\<lambda>kv. (fst kv, projr (pad_array ?t (snd kv)))) (filter is_input kwargs))" .
  show ?thesis
    unfolding pad_batch_def filt Let_def ne list.case
    using first b(1) pi dict_update_filter_map[OF dist, of "\<lambda>v. projr (pad_array ?t v)" is_input]
    by (cases kv0) (simp add: ctx get_model_config_def get_triton_context_def ne)
qed

lemma sorted_le_last:
  assumes "sorted xs" "x \<in> set xs"
  shows "x \<le> last xs"
proof -
  from assms(2) obtain i where i: "i < length xs" "xs ! i = x" by (auto simp: in_set_conv_nth)
  then have "xs \<noteq> []" by auto
  then have "last xs = xs ! (length xs - 1)" by (rule last_conv_nth)
  moreover have "xs ! i \<le> xs ! (length xs - 1)"
    using assms(1) i(1) by (intro sorted_nth_mono) auto
  ultimately show ?thesis using i(2) by simp
qed

lemma map_of_map_if:
  "map_of (map (\<lambda>kv. if P kv then (fst kv, g (snd kv)) else kv) d) k
     = (case map_of d k of None \<Rightarrow> None | Some v \<Rightarrow> Some (if P (k, v) then g v else v))"
  by (induction d) auto

text \<open>
  Claim C4.  Let the configuration be bound, the policy list (the sorted preferred batch
  sizes followed by the maximum) be ascending, and the keyword arguments hold at least
  one input, every input a well-formed tensor of axis-0 length \<open>n\<close> with
  \<open>1 \<le> n \<le> max_batch_size\<close>.  Then \<open>pad_batch\<close> calls the wrapped callable once; the
  target size is the smallest policy value that is at least \<open>n\<close>; and every input tensor
  passed on has axis-0 length equal to the target size, its first \<open>n - 1\<close> rows equal to
  the original rows, and every remaining row equal to the original last row.
\<close>

theorem pad_batch_pads:
  assumes ctx: "caller = Some c"
    and policy: "sorted (batch_sizes_of (model_config c))"
    and dist: "distinct (keys kwargs)"
    and inputs: "list_all (\<lambda>kv. is_input kv \<longrightarrow> has_batch_size n (snd kv)) kwargs"
    and some: "list_ex is_input kwargs"
    and n: "1 \<le> n" and max: "int n \<le> max_batch_size (model_config c)"
  shows "\<exists>target padded.
           pad_batch wrapped caller kwargs = ([padded], wrapped padded)
         \<and> target \<in> set (batch_sizes_of (model_config c)) \<and> int n \<le> target
         \<and> (\<forall>p \<in> set (batch_sizes_of (model_config c)). int n \<le> p \<longrightarrow> target \<le> p)
         \<and> keys padded = keys kwargs
         \<and> (\<forall>k a. k \<noteq> ''__triton_context__'' \<longrightarrow> map_of kwargs k = Some (Array a) \<longrightarrow>
               (\<exists>a'. map_of padded k = Some (Array a')
                   \<and> shape a' = nat target # tl (shape a)
                   \<and> (\<forall>i<n - 1. row a' i = row a i)
                   \<and> (\<forall>i. n - 1 \<le> i \<longrightarrow> i < nat target \<longrightarrow> row a' i = row a (n - 1))))"
proof -
  let ?pol = "batch_sizes_of (model_config c)"
  define t where "t = ?pol ! bisect_left ?pol (int n)"
  define padded where
    "padded = map (\<lambda>kv. if is_input kv then (fst kv, projr (pad_array t (snd kv))) else kv) kwargs"
  have run: "pad_batch wrapped caller kwargs = ([padded], wrapped padded)"
    unfolding padded_def t_def
    by (rule pad_batch_closed_form[OF ctx policy dist inputs some n max])
  have last: "last ?pol = max_batch_size (model_config c)" "?pol \<noteq> []"
    by (simp_all add: batch_sizes_of_def)
  from bisect_left_least[OF policy last(2)] max last(1)
  have b: "bisect_left ?pol (int n) < length ?pol" "int n \<le> t"
    "\<forall>p \<in> set ?pol. int n \<le> p \<longrightarrow> t \<le> p"
    by (auto simp: t_def)
  have mem: "t \<in> set ?pol" using b(1) by (simp add: t_def)
  have ks: "keys padded = keys kwargs"
    by (auto simp: padded_def keys_def)
  have arr: "\<exists>a'. map_of padded k = Some (Array a')
                   \<and> shape a' = nat t # tl (shape a)
                   \<and> (\<forall>i<n - 1. row a' i = row a i)
                   \<and> (\<forall>i. n - 1 \<le> i \<longrightarrow> i < nat t \<longrightarrow> row a' i = row a (n - 1))"
    if k: "k \<noteq> ''__triton_context__''" and look: "map_of kwargs k = Some (Array a)" for k a
  proof -
    have "(k, Array a) \<in> set kwargs" using look by (rule map_of_SomeD)
    then have "has_batch_size n (Array a)"
      using inputs k by (auto simp: list_all_iff is_input_def)
    from pad_array_spec[OF this n b(2)] obtain a' where
      a': "pad_array t (Array a) = Inr (Array a')" "shape a' = nat t # tl (shape a)"
          "\<forall>i<n - 1. row a' i = row a i"
          "\<forall>i. n - 1 \<le> i \<longrightarrow> i < nat t \<longrightarrow> row a' i = row a (n - 1)"
      by auto
    have "map_of padded k = Some (Array a')"
      unfolding padded_def map_of_map_if[of is_input "\<lambda>v. projr (pad_array t v)" kwargs k]
      using look k a'(1) by (simp add: is_input_def)
    then show ?thesis using a'(2,3,4) by blast
  qed
  show ?thesis using run mem b(2,3) ks arr by blast
qed

theorem pad_batch_pads_witness:
  "\<exists>target padded a'.
     pad_batch echo_kwargs (Some preferred_four_context)
       [(''x'', Array (NDArray [3, 2] [Num 1, Num 2, Num 3, Num 4, Num 5, Num 6]))] = ([padded], echo_kwargs padded)
   \<and> target \<in> {4, 8} \<and> 3 \<le> target \<and> target \<le> 4
   \<and> map_of padded ''x'' = Some (Array a')
   \<and> shape a' = [nat target, 2]
   \<and> row a' 0 = [Num 1, Num 2] \<and> row a' 1 = [Num 3, Num 4] \<and> row a' 2 = [Num 5, Num 6]
   \<and> row a' 3 = [Num 5, Num 6]"
proof -
  let ?a = "NDArray [3, 2] [Num 1, Num 2, Num 3, Num 4, Num 5, Num 6]"
  have 1: "Some preferred_four_context = Some preferred_four_context" by simp
  have pol: "batch_sizes_of (model_config preferred_four_context) = [4, 8]"
    by (simp add: batch_sizes_of_def preferred_four_context_def)
  have 2: "sorted (batch_sizes_of (model_config preferred_four_context))"
    by (simp add: pol)
  have 3: "distinct (keys [(''x'', Array ?a)])" by (simp add: keys_def)
  have 4: "list_all (\<lambda>kv. is_input kv \<longrightarrow> has_batch_size 3 (snd kv)) [(''x'', Array ?a)]"
    by (simp add: has_batch_size_def wf_array_def)
  have 5: "list_ex is_input [(''x'', Array ?a)]" by (simp add: is_input_def)
  have 6: "1 \<le> (3::nat)" by simp
  have 7: "int 3 \<le> max_batch_size (model_config preferred_four_context)"
    by (simp add: preferred_four_context_def)
  from pad_batch_pads[OF 1 2 3 4 5 6 7, of echo_kwargs] obtain target padded where
    r: "pad_batch echo_kwargs (Some preferred_four_context) [(''x'', Array ?a)]
          = ([padded], echo_kwargs padded)"
       "target \<in> set [4, 8]" "int 3 \<le> target"
       "\<forall>p \<in> set [4, 8]. int 3 \<le> p \<longrightarrow> target \<le> p"
    and arr: "\<forall>k a. k \<noteq> ''__triton_context__'' \<longrightarrow>
            map_of [(''x'', Array ?a)] k = Some (Array a) \<longrightarrow>
            (\<exists>a'. map_of padded k = Some (Array a')
                 \<and> shape a' = nat target # tl (shape a)
                 \<and> (\<forall>i<3 - 1. row a' i = row a i)
                 \<and> (\<forall>i. 3 - 1 \<le> i \<longrightarrow> i < nat target \<longrightarrow> row a' i = row a (3 - 1)))"
    unfolding pol by (elim exE conjE) (rule that; assumption)
  have t: "target = 4" using r(2,3,4) by auto
  have k: "''x'' \<noteq> ''__triton_context__''" "map_of [(''x'', Array ?a)] ''x'' = Some (Array ?a)"
    by simp_all
  from arr[rule_format, OF k] obtain a' where
    a': "map_of padded ''x'' = Some (Array a')" "shape a' = nat target # tl (shape ?a)"
        "\<forall>i<3 - 1. row a' i = row ?a i"
        "\<forall>i. 3 - 1 \<le> i \<longrightarrow> i < nat target \<longrightarrow> row a' i = row ?a (3 - 1)"
    by (elim exE conjE) (rule that; assumption)
  have "row a' 0 = row ?a 0" "row a' 1 = row ?a 1" using a'(3) by auto
  moreover have "row a' 2 = row ?a 2" "row a' 3 = row ?a 2" using a'(4) t by auto
  moreover have "row ?a 0 = [Num 1, Num 2]" "row ?a 1 = [Num 3, Num 4]" "row ?a 2 = [Num 5, Num 6]"
    by (simp_all add: row_def row_size_def)
  ultimately show ?thesis using r(1) a'(1,2) t by auto
qed

text \<open>
  Claim C10.  When the common axis-0 length \<open>n\<close> of the inputs is itself a value of the
  (ascending) policy list, \<open>pad_batch\<close> passes the keyword arguments on unchanged: every
  tensor the wrapped callable receives equals the original tensor.
\<close>

theorem pad_batch_admissible_identity:
  assumes ctx: "caller = Some c"
    and policy: "sorted (batch_sizes_of (model_config c))"
    and dist: "distinct (keys kwargs)"
    and inputs: "list_all (\<lambda>kv. is_input kv \<longrightarrow> has_batch_size n (snd kv)) kwargs"
    and some: "list_ex is_input kwargs"
    and n: "1 \<le> n" and admissible: "int n \<in> set (batch_sizes_of (model_config c))"
  shows "pad_batch wrapped caller kwargs = ([kwargs], wrapped kwargs)"
proof -
  let ?pol = "batch_sizes_of (model_config c)"
  let ?t = "?pol ! bisect_left ?pol (int n)"
  have last: "last ?pol = max_batch_size (model_config c)" "?pol \<noteq> []"
    by (simp_all add: batch_sizes_of_def)
  have max: "int n \<le> max_batch_size (model_config c)"
    using sorted_le_last[OF policy admissible] last(1) by simp
  from bisect_left_least[OF policy last(2)] max last(1)
  have "int n \<le> ?t" "\<forall>p \<in> set ?pol. int n \<le> p \<longrightarrow> ?t \<le> p"
    by auto
  then have t: "?t = int n" using admissible by force
  have "(if is_input kv then (fst kv, projr (pad_array ?t (snd kv))) else kv) = kv"
    if "kv \<in> set kwargs" for kv
  proof (cases "is_input kv")
    case True
    then have "has_batch_size n (snd kv)" using inputs that by (auto simp: list_all_iff)
    from pad_array_spec[OF this n, of "int n"] have "pad_array (int n) (snd kv) = Inr (snd kv)"
      by auto
    then show ?thesis by (simp add: t)
  next
    case False
    then show ?thesis by simp
  qed
  then have same:
    "map (\<lambda>kv. if is_input kv then (fst kv, projr (pad_array ?t (snd kv))) else kv) kwargs
       = kwargs"
    by (rule map_idI)
  show ?thesis
    using pad_batch_closed_form[OF ctx policy dist inputs some n max, of wrapped]
    by (simp only: same)
qed

theorem pad_batch_admissible_identity_witness:
  "pad_batch echo_kwargs (Some preferred_four_context)
     [(''x'', Array (NDArray [4, 1] [Num 1, Num 2, Num 3, Num 4]))]
   = ([[(''x'', Array (NDArray [4, 1] [Num 1, Num 2, Num 3, Num 4]))]],
      Inr [(''x'', Array (NDArray [4, 1] [Num 1, Num 2, Num 3, Num 4]))])"
proof -
  let ?a = "NDArray [4, 1] [Num 1, Num 2, Num 3, Num 4]"
  have 1: "Some preferred_four_context = Some preferred_four_context" by simp
  have pol: "batch_sizes_of (model_config preferred_four_context) = [4, 8]"
    by (simp add: batch_sizes_of_def preferred_four_context_def)
  have 2: "sorted (batch_sizes_of (model_config preferred_four_context))"
    by (simp add: pol)
  have 3: "distinct (keys [(''x'', Array ?a)])" by (simp add: keys_def)
  have 4: "list_all (\<lambda>kv. is_input kv \<longrightarrow> has_batch_size 4 (snd kv)) [(''x'', Array ?a)]"
    by (simp add: has_batch_size_def wf_array_def)
  have 5: "list_ex is_input [(''x'', Array ?a)]" by (simp add: is_input_def)
  have 6: "1 \<le> (4::nat)" by simp
  have 7: "int 4 \<in> set (batch_sizes_of (model_config preferred_four_context))"
    by (simp add: pol)
  from pad_batch_admissible_identity[OF 1 2 3 4 5 6 7, of echo_kwargs] show ?thesis
    by (simp add: echo_kwargs_def)
qed

subsection \<open>Sorting by key\<close>

text \<open>
  Where \<open><\<close> is a linear order on the keys, \<open>list_sort\<close> is the stable sort; and any two
  orders that agree on the keys of a list sort it alike.
\<close>

declare insertion_point.simps [simp del]

lemma insertion_point_bounds:
  "l \<le> r \<Longrightarrow> l \<le> insertion_point lt a pivot l r \<and> insertion_point lt a pivot l r \<le> r"
proof (induction lt a pivot l r rule: insertion_point.induct)
  case (1 lt a pivot l r)
  show ?case
  proof (cases "l < r")
    case False
    then show ?thesis using "1.prems" by (subst insertion_point.simps, simp)+
  next
    case True
    let ?p = "l + (r - l) div 2"
    have p: "l \<le> ?p" "?p < r" using True by auto
    show ?thesis
    proof (cases "lt pivot (a ! ?p)")
      case True
      from "1.IH"(1)[OF \<open>l < r\<close> refl True] p
      have "l \<le> insertion_point lt a pivot l ?p \<and> insertion_point lt a pivot l ?p \<le> ?p" by simp
      then show ?thesis using p True \<open>l < r\<close>
        by (subst insertion_point.simps, simp add: Let_def)+
    next
      case False
      from "1.IH"(2)[OF \<open>l < r\<close> refl False] p
      have "?p + 1 \<le> insertion_point lt a pivot (?p + 1) r \<and> insertion_point lt a pivot (?p + 1) r \<le> r"
        by simp
      then show ?thesis using p False \<open>l < r\<close>
        by (subst insertion_point.simps, simp add: Let_def)+
    qed
  qed
qed

lemma insertion_point_spec:
  fixes a :: "'k::linorder list"
  assumes "sorted a" "l \<le> r" "r \<le> length a"
    and "\<forall>i<l. a ! i \<le> pivot" "\<forall>i. r \<le> i \<and> i < length a \<longrightarrow> pivot < a ! i"
  shows "(\<forall>i < insertion_point (<) a pivot l r. a ! i \<le> pivot)
       \<and> (\<forall>i. insertion_point (<) a pivot l r \<le> i \<and> i < length a \<longrightarrow> pivot < a ! i)"
  using assms
proof (induction "(<) :: 'k \<Rightarrow> 'k \<Rightarrow> bool" a pivot l r rule: insertion_point.induct)
  case (1 a pivot l r)
  show ?case
  proof (cases "l < r")
    case False
    then show ?thesis using "1.prems" by (subst insertion_point.simps, simp)+
  next
    case lr: True
    let ?p = "l + (r - l) div 2"
    have p: "l \<le> ?p" "?p < r" using lr by auto
    show ?thesis
    proof (cases "pivot < a ! ?p")
      case True
      have up: "\<forall>i. ?p \<le> i \<and> i < length a \<longrightarrow> pivot < a ! i"
      proof (intro allI impI)
        fix i assume i: "?p \<le> i \<and> i < length a"
        then have "a ! ?p \<le> a ! i" using "1.prems"(1) by (simp add: sorted_iff_nth_mono)
        then show "pivot < a ! i" using True by simp
      qed
      have "?p \<le> length a" using p "1.prems"(3) by simp
      from "1.hyps"(1)[OF lr refl True "1.prems"(1) p(1) this "1.prems"(4) up]
      show ?thesis using True lr by (subst insertion_point.simps, simp add: Let_def)+
    next
      case False
      have lo: "\<forall>i<?p + 1. a ! i \<le> pivot"
      proof (intro allI impI)
        fix i assume i: "i < ?p + 1"
        then have "a ! i \<le> a ! ?p" using "1.prems"(1,3) p by (simp add: sorted_iff_nth_mono)
        then show "a ! i \<le> pivot" using False by simp
      qed
      have "?p + 1 \<le> r" using p by simp
      from "1.hyps"(2)[OF lr refl False "1.prems"(1) this "1.prems"(3) lo "1.prems"(5)]
      show ?thesis using False lr by (subst insertion_point.simps, simp add: Let_def)+
    qed
  qed
qed


lemma binary_insert_snoc:
  fixes f :: "'a \<Rightarrow> 'k::linorder"
  shows "binary_insert (<) f pivot (sort_key f ys) = sort_key f (ys @ [pivot])"
proof -
  let ?S = "sort_key f ys"
  define l where "l = insertion_point (<) (map f ?S) (f pivot) 0 (length ?S)"
  have bi: "binary_insert (<) f pivot ?S = take l ?S @ pivot # drop l ?S"
    by (simp add: binary_insert_def l_def Let_def)
  have ll: "l \<le> length ?S"
    using insertion_point_bounds[of 0 "length ?S" "(<)" "map f ?S" "f pivot"] by (simp add: l_def)
  have spec: "(\<forall>i<l. map f ?S ! i \<le> f pivot)
            \<and> (\<forall>i. l \<le> i \<and> i < length (map f ?S) \<longrightarrow> f pivot < map f ?S ! i)"
    unfolding l_def by (rule insertion_point_spec) auto
  have low: "f x \<le> f pivot" if "x \<in> set (take l ?S)" for x
  proof -
    from that obtain i where "i < length (take l ?S)" "x = take l ?S ! i"
      by (auto simp: in_set_conv_nth)
    then show ?thesis using spec ll by simp
  qed
  have high: "f pivot < f x" if "x \<in> set (drop l ?S)" for x
  proof -
    from that obtain i where i: "i < length (drop l ?S)" "x = drop l ?S ! i"
      by (auto simp: in_set_conv_nth)
    then have "x = ?S ! (l + i)" "l + i < length ?S" using ll by simp_all
    then show ?thesis using spec by simp
  qed
  have split: "filter P ?S = filter P (take l ?S) @ filter P (drop l ?S)" for P
    by (metis append_take_drop_id filter_append)
  have "sort_key f (ys @ [pivot]) = take l ?S @ pivot # drop l ?S"
  proof (rule properties_for_sort_key)
    have "mset (take l ?S) + mset (drop l ?S) = mset ?S"
      by (metis append_take_drop_id mset_append)
    then show "mset (take l ?S @ pivot # drop l ?S) = mset (ys @ [pivot])"
      by simp
  next
    fix k
    show "filter (\<lambda>x. f k = f x) (take l ?S @ pivot # drop l ?S)
        = filter (\<lambda>x. f k = f x) (ys @ [pivot])"
    proof (cases "f k = f pivot")
      case True
      have "f k \<noteq> f x" if "x \<in> set (drop l ?S)" for x
        using high[OF that] True by simp
      then have "filter (\<lambda>x. f k = f x) (drop l ?S) = []"
        by (simp add: filter_empty_conv)
      then have "filter (\<lambda>x. f k = f x) (take l ?S) = filter (\<lambda>x. f k = f x) ?S"
        using split[of "\<lambda>x. f k = f x"] by simp
      also have "\<dots> = filter (\<lambda>x. f k = f x) ys"
        using sort_key_stable[of f "f k" ys] by (simp add: eq_commute)
      finally show ?thesis
        using True \<open>filter (\<lambda>x. f k = f x) (drop l ?S) = []\<close> by simp
    next
      case False
      have "filter (\<lambda>x. f k = f x) (take l ?S @ pivot # drop l ?S) = filter (\<lambda>x. f k = f x) ?S"
        using False split[of "\<lambda>x. f k = f x"] by simp
      also have "\<dots> = filter (\<lambda>x. f k = f x) ys"
        using sort_key_stable[of f "f k" ys] by (simp add: eq_commute)
      finally show ?thesis using False by simp
    qed
  next
    have "sorted (map f ?S)" by (rule sorted_sort_key)
    then have "sorted (map f (take l ?S @ drop l ?S))" by simp
    then have "sorted (map f (take l ?S))" "sorted (map f (drop l ?S))"
      unfolding map_append sorted_append by simp_all
    moreover have "f x \<le> f y" if "x \<in> set (take l ?S)" "y \<in> set (drop l ?S)" for x y
      using low[OF that(1)] high[OF that(2)] by simp
    ultimately show "sorted (map f (take l ?S @ pivot # drop l ?S))"
      using low high by (auto simp: sorted_append less_imp_le)
  qed
  then show ?thesis by (simp add: bi)
qed

lemma fold_binary_insert:
  fixes f :: "'a \<Rightarrow> 'k::linorder"
  shows "fold (binary_insert (<) f) rest (sort_key f pre) = sort_key f (pre @ rest)"
proof (induction rest arbitrary: pre)
  case Nil
  then show ?case by simp
next
  case (Cons x rest)
  show ?case using Cons[of "pre @ [x]"] by (simp add: binary_insert_snoc)
qed

lemma asc_run_sorted:
  fixes k :: "'k::linorder"
  shows "sorted (k # take (asc_run (<) k ks) ks)"
proof (induction ks arbitrary: k)
  case Nil
  then show ?case by simp
next
  case (Cons x ks)
  show ?case
  proof (cases "x < k")
    case True
    then show ?thesis by simp
  next
    case False
    then show ?thesis using Cons[of x] by auto
  qed
qed

lemma desc_run_decreasing:
  fixes k :: "'k::linorder"
  shows "sorted_wrt (>) (k # take (desc_run (<) k ks) ks)"
proof (induction ks arbitrary: k)
  case Nil
  then show ?case by simp
next
  case (Cons x ks)
  show ?case
  proof (cases "x < k")
    case False
    then show ?thesis by simp
  next
    case True
    then show ?thesis using Cons[of x] by auto
  qed
qed

lemma sort_key_decreasing:
  fixes f :: "'a \<Rightarrow> 'k::linorder"
  assumes "sorted_wrt (>) (map f ys)"
  shows "sort_key f ys = rev ys"
proof (rule properties_for_sort_key)
  show "mset (rev ys) = mset ys" by simp
next
  have "sorted_wrt (\<lambda>x y. y \<le> x) (map f ys)"
    by (rule sorted_wrt_mono_rel[OF _ assms]) simp
  then have "sorted_wrt (\<le>) (rev (map f ys))" by (simp only: sorted_wrt_rev)
  then show "sorted (map f (rev ys))" by (simp only: rev_map)
next
  fix k
  have "distinct (map f ys)"
    using assms by (induction ys) auto
  then have "length (filter (\<lambda>x. f k = f x) ys) \<le> 1"
    by (induction ys) (auto simp: filter_empty_conv)
  then have "rev (filter (\<lambda>x. f k = f x) ys) = filter (\<lambda>x. f k = f x) ys"
    by (cases "filter (\<lambda>x. f k = f x) ys") auto
  then show "filter (\<lambda>x. f k = f x) (rev ys) = filter (\<lambda>x. f k = f x) ys"
    by (simp add: rev_filter)
qed

lemma list_sort_linorder:
  fixes f :: "'a \<Rightarrow> 'k::linorder"
  shows "list_sort (<) f xs = sort_key f xs"
proof (cases "map f xs")
  case Nil
  then show ?thesis by (simp add: list_sort_def)
next
  case (Cons k0 ks0)
  show ?thesis
  proof (cases ks0)
    case Nil
    then have "length xs = 1" using Cons by (metis length_map length_Cons list.size(3) One_nat_def)
    then obtain x where "xs = [x]" by (cases xs) auto
    then show ?thesis using Cons Nil by (simp add: list_sort_def)
  next
    case ks0: (Cons k1 ks)
    have m: "map f xs = k0 # k1 # ks" using Cons ks0 by simp
    show ?thesis
    proof (cases "k1 < k0")
      case True
      define n where "n = 2 + desc_run (<) k1 ks"
      have "map f (take n xs) = k0 # k1 # take (desc_run (<) k1 ks) ks"
        by (simp add: take_map[symmetric] m n_def)
      moreover have "sorted_wrt (>) (k0 # k1 # take (desc_run (<) k1 ks) ks)"
        using desc_run_decreasing[of k1 ks] True by auto
      ultimately have "sort_key f (take n xs) = rev (take n xs)"
        by (intro sort_key_decreasing) simp
      then have "fold (binary_insert (<) f) (drop n xs) (rev (take n xs)) = sort_key f xs"
        using fold_binary_insert[of f "drop n xs" "take n xs"] by simp
      then show ?thesis using True by (simp add: list_sort_def m n_def)
    next
      case False
      define n where "n = 2 + asc_run (<) k1 ks"
      have "map f (take n xs) = k0 # k1 # take (asc_run (<) k1 ks) ks"
        by (simp add: take_map[symmetric] m n_def)
      moreover have "sorted (k0 # k1 # take (asc_run (<) k1 ks) ks)"
        using asc_run_sorted[of k1 ks] False by auto
      ultimately have "sorted (map f (take n xs))" by simp
      then have "sort_key f (take n xs) = take n xs" by (rule sort_key_id_if_sorted)
      then have "fold (binary_insert (<) f) (drop n xs) (take n xs) = sort_key f xs"
        using fold_binary_insert[of f "drop n xs" "take n xs"] by simp
      then show ?thesis using False by (simp add: list_sort_def m n_def)
    qed
  qed
qed


lemma asc_run_cong:
  "\<forall>x \<in> set (k # ks). \<forall>y \<in> set (k # ks). lt x y = lt' x y \<Longrightarrow> asc_run lt k ks = asc_run lt' k ks"
  by (induction ks arbitrary: k) auto

lemma desc_run_cong:
  "\<forall>x \<in> set (k # ks). \<forall>y \<in> set (k # ks). lt x y = lt' x y \<Longrightarrow> desc_run lt k ks = desc_run lt' k ks"
  by (induction ks arbitrary: k) auto

lemma insertion_point_cong:
  "\<forall>i<length a. lt pivot (a ! i) = lt' pivot (a ! i) \<Longrightarrow> r \<le> length a \<Longrightarrow>
   insertion_point lt a pivot l r = insertion_point lt' a pivot l r"
proof (induction lt a pivot l r rule: insertion_point.induct)
  case (1 lt a pivot l r)
  show ?case
  proof (cases "l < r")
    case False
    then show ?thesis by (simp add: insertion_point.simps)
  next
    case lr: True
    let ?p = "l + (r - l) div 2"
    have p: "?p < r" "?p < length a" using lr "1.prems"(2) by auto
    then have agree: "lt pivot (a ! ?p) = lt' pivot (a ! ?p)" using "1.prems"(1) by blast
    show ?thesis
    proof (cases "lt pivot (a ! ?p)")
      case True
      have "insertion_point lt a pivot l ?p = insertion_point lt' a pivot l ?p"
        using "1.IH"(1)[OF lr refl True "1.prems"(1)] p by simp
      then show ?thesis
        using lr True agree
        by (subst insertion_point.simps, subst (2) insertion_point.simps) (simp add: Let_def)
    next
      case False
      have "insertion_point lt a pivot (?p + 1) r = insertion_point lt' a pivot (?p + 1) r"
        using "1.IH"(2)[OF lr refl False "1.prems"(1)] "1.prems"(2) by simp
      then show ?thesis
        using lr False agree
        by (subst insertion_point.simps, subst (2) insertion_point.simps) (simp add: Let_def)
    qed
  qed
qed

lemma binary_insert_cong:
  assumes "\<forall>x \<in> set run. lt (f pivot) (f x) = lt' (f pivot) (f x)"
  shows "binary_insert lt f pivot run = binary_insert lt' f pivot run"
proof -
  have "insertion_point lt (map f run) (f pivot) 0 (length run)
      = insertion_point lt' (map f run) (f pivot) 0 (length run)"
    by (rule insertion_point_cong) (use assms in simp_all)
  then show ?thesis by (simp add: binary_insert_def)
qed

lemma set_binary_insert: "set (binary_insert lt f pivot run) = insert pivot (set run)"
proof -
  have "set (take l run) \<union> set (drop l run) = set run" for l
    by (metis append_take_drop_id set_append)
  then show ?thesis by (auto simp: binary_insert_def Let_def)
qed

lemma fold_binary_insert_cong:
  assumes "\<forall>x \<in> set rest \<union> set pre. \<forall>y \<in> set rest \<union> set pre. lt (f x) (f y) = lt' (f x) (f y)"
  shows "fold (binary_insert lt f) rest pre = fold (binary_insert lt' f) rest pre"
  using assms
proof (induction rest arbitrary: pre)
  case Nil
  then show ?case by simp
next
  case (Cons x rest)
  have "binary_insert lt f x pre = binary_insert lt' f x pre"
    by (rule binary_insert_cong) (use Cons.prems in auto)
  moreover have "fold (binary_insert lt f) rest (binary_insert lt' f x pre)
      = fold (binary_insert lt' f) rest (binary_insert lt' f x pre)"
    by (rule Cons.IH) (use Cons.prems in \<open>auto simp: set_binary_insert\<close>)
  ultimately show ?case by simp
qed

lemma list_sort_cong:
  assumes "\<forall>x \<in> set xs. \<forall>y \<in> set xs. lt (f x) (f y) = lt' (f x) (f y)"
  shows "list_sort lt f xs = list_sort lt' f xs"
proof (cases "map f xs")
  case Nil
  then show ?thesis by (simp add: list_sort_def)
next
  case (Cons k0 ks0)
  show ?thesis
  proof (cases ks0)
    case Nil
    then show ?thesis using Cons by (simp add: list_sort_def)
  next
    case ks0: (Cons k1 ks)
    have m: "map f xs = k0 # k1 # ks" using Cons ks0 by simp
    have keys: "\<forall>a \<in> set (k0 # k1 # ks). \<forall>b \<in> set (k0 # k1 # ks). lt a b = lt' a b"
    proof (intro ballI)
      fix a b assume "a \<in> set (k0 # k1 # ks)" "b \<in> set (k0 # k1 # ks)"
      then have "a \<in> f ` set xs" "b \<in> f ` set xs" by (simp_all only: m[symmetric] set_map)
      then show "lt a b = lt' a b" using assms by auto
    qed
    have 0: "lt k1 k0 = lt' k1 k0" using keys by simp
    have 1: "desc_run lt k1 ks = desc_run lt' k1 ks" by (rule desc_run_cong) (use keys in simp)
    have 2: "asc_run lt k1 ks = asc_run lt' k1 ks" by (rule asc_run_cong) (use keys in simp)
    have 3: "fold (binary_insert lt f) (drop n xs) pre = fold (binary_insert lt' f) (drop n xs) pre"
      if "set pre \<subseteq> set xs" for n pre
    proof (rule fold_binary_insert_cong, intro ballI)
      fix x y assume "x \<in> set (drop n xs) \<union> set pre" "y \<in> set (drop n xs) \<union> set pre"
      then have "x \<in> set xs" "y \<in> set xs" using that by (auto dest: in_set_dropD)
      then show "lt (f x) (f y) = lt' (f x) (f y)" using assms by simp
    qed
    have 4: "set (take n xs) \<subseteq> set xs" "set (rev (take n xs)) \<subseteq> set xs" for n
      by (auto dest: in_set_takeD)
    show ?thesis
      by (simp add: list_sort_def m 0 1 2 3[OF 4(1)] 3[OF 4(2)] Let_def)
  qed
qed

lemma list_sort_total:
  fixes f :: "'a \<Rightarrow> 'k::linorder"
  assumes "\<forall>x \<in> set xs. \<forall>y \<in> set xs. lt (f x) (f y) \<longleftrightarrow> f x < f y"
  shows "list_sort lt f xs = sort_key f xs"
  using list_sort_cong[of xs lt f "(<)"] assms by (simp add: list_sort_linorder)

lemma groupby_cong:
  "\<forall>x \<in> set ys. \<forall>y \<in> set ys. eq (f x) (f y) = eq' (f x) (f y) \<Longrightarrow>
   groupby eq f ys = groupby eq' f ys"
proof (induction eq f ys rule: groupby.induct)
  case (1 eq f)
  then show ?case by simp
next
  case (2 eq f x xs)
  have tw: "takeWhile (\<lambda>y. eq (f x) (f y)) xs = takeWhile (\<lambda>y. eq' (f x) (f y)) xs"
    by (rule takeWhile_cong) (use "2.prems" in auto)
  have dw: "dropWhile (\<lambda>y. eq (f x) (f y)) xs = dropWhile (\<lambda>y. eq' (f x) (f y)) xs"
    by (rule dropWhile_cong) (use "2.prems" in auto)
  have "groupby eq f (dropWhile (\<lambda>y. eq (f x) (f y)) xs)
      = groupby eq' f (dropWhile (\<lambda>y. eq (f x) (f y)) xs)"
  proof (rule "2.IH", intro ballI)
    fix a b
    assume "a \<in> set (dropWhile (\<lambda>y. eq (f x) (f y)) xs)"
      and "b \<in> set (dropWhile (\<lambda>y. eq (f x) (f y)) xs)"
    then have "a \<in> set xs" "b \<in> set xs" by (auto dest: set_dropWhileD)
    then show "eq (f a) (f b) = eq' (f a) (f b)" using "2.prems" by simp
  qed
  then show ?case by (simp add: tw dw)
qed

lemma mset_binary_insert: "mset (binary_insert lt f pivot run) = add_mset pivot (mset run)"
proof -
  have "mset (take l run) + mset (drop l run) = mset run" for l
    by (metis append_take_drop_id mset_append)
  then show ?thesis by (simp add: binary_insert_def Let_def)
qed

lemma mset_fold_binary_insert:
  "mset (fold (binary_insert lt f) rest pre) = mset pre + mset rest"
  by (induction rest arbitrary: pre) (simp_all add: mset_binary_insert)

lemma mset_list_sort: "mset (list_sort lt f xs) = mset xs"
proof -
  have "mset (take n xs) + mset (drop n xs) = mset xs" for n
    by (metis append_take_drop_id mset_append)
  then show ?thesis
    by (auto simp: list_sort_def mset_fold_binary_insert Let_def split: list.splits)
qed

subsection \<open>Comparing group keys\<close>

text \<open>
  On keys that hold no NaN, Python's \<open>==\<close> is equality and Python's \<open><\<close> is the
  lexicographic order.
\<close>

lemma elem_eq_iff: "a \<noteq> NaN \<Longrightarrow> elem_eq a b \<longleftrightarrow> a = b"
  by (cases a; cases b) auto

lemma elem_lt_iff: "a \<noteq> NaN \<Longrightarrow> b \<noteq> NaN \<Longrightarrow> elem_lt a b \<longleftrightarrow> a < b"
  by (cases a; cases b) (auto simp: less_elem_def)

lemma tuple_eq_iff:
  "\<forall>a \<in> set xs. \<forall>b \<in> set ys. eq a b \<longleftrightarrow> a = b \<Longrightarrow> tuple_eq eq xs ys \<longleftrightarrow> xs = ys"
  by (induction eq xs ys rule: tuple_eq.induct) auto

lemma tuple_lt_iff:
  fixes xs :: "'a::linorder list"
  shows "\<forall>a \<in> set xs. \<forall>b \<in> set ys. (eq a b \<longleftrightarrow> a = b) \<and> (lt a b \<longleftrightarrow> a < b) \<Longrightarrow>
         tuple_lt eq lt xs ys \<longleftrightarrow> xs < ys"
  by (induction eq lt xs ys rule: tuple_lt.induct) auto

lemma tuple_eq_elem_iff: "NaN \<notin> set xs \<Longrightarrow> tuple_eq elem_eq xs ys \<longleftrightarrow> xs = ys"
  by (rule tuple_eq_iff) (metis elem_eq_iff)

lemma tuple_lt_elem_iff:
  "NaN \<notin> set xs \<Longrightarrow> NaN \<notin> set ys \<Longrightarrow> tuple_lt elem_eq elem_lt xs ys \<longleftrightarrow> xs < ys"
  by (rule tuple_lt_iff) (metis elem_eq_iff elem_lt_iff)

lemma pair_eq_iff: "NaN \<notin> set (snd a) \<Longrightarrow> pair_eq a b \<longleftrightarrow> a = b"
  by (cases a; cases b) (simp add: tuple_eq_iff tuple_eq_elem_iff)

lemma pair_lt_iff: "NaN \<notin> set (snd a) \<Longrightarrow> NaN \<notin> set (snd b) \<Longrightarrow> pair_lt a b \<longleftrightarrow> a < b"
  by (cases a; cases b) (auto simp: tuple_eq_iff tuple_lt_iff tuple_lt_elem_iff)

lemma value_key_eq_iff:
  "\<forall>p \<in> set a. NaN \<notin> set (snd p) \<Longrightarrow> value_key_eq a b \<longleftrightarrow> a = b"
  unfolding value_key_eq_def by (rule tuple_eq_iff) (simp add: pair_eq_iff)

lemma value_key_lt_iff:
  "\<forall>p \<in> set a. NaN \<notin> set (snd p) \<Longrightarrow> \<forall>p \<in> set b. NaN \<notin> set (snd p) \<Longrightarrow>
   value_key_lt a b \<longleftrightarrow> a < b"
  unfolding value_key_lt_def by (rule tuple_lt_iff) (simp add: pair_eq_iff pair_lt_iff)

subsection \<open>\<open>np.unique\<close> on arrays without NaN\<close>

text \<open>
  On an array that holds no NaN, \<open>np.unique\<close> returns the distinct rows in ascending
  order, so two well-formed arrays have the same result exactly when they agree on the
  shape behind axis 0 and on the set of their rows.
\<close>

lemma kept_rows_remdups_adj:
  "\<forall>r \<in> set (p # xs). NaN \<notin> set r \<Longrightarrow>
   map fst (filter snd (zip xs (map2 (\<lambda>cur prev. \<not> tuple_eq elem_eq cur prev) xs (p # xs))))
     = tl (remdups_adj (p # xs))"
proof (induction xs arbitrary: p)
  case Nil
  then show ?case by simp
next
  case (Cons y ys)
  have eq: "tuple_eq elem_eq y p \<longleftrightarrow> y = p"
    using Cons.prems by (simp add: tuple_eq_elem_iff)
  have IH: "map fst (filter snd (zip ys (map2 (\<lambda>cur prev. \<not> tuple_eq elem_eq cur prev) ys (y # ys))))
     = tl (remdups_adj (y # ys))"
    by (rule Cons.IH) (use Cons.prems in simp)
  show ?case
  proof (cases "y = p")
    case True
    then show ?thesis using IH eq by simp
  next
    case False
    then show ?thesis using IH eq by simp
  qed
qed

lemma distinct_remdups_adj_sorted:
  fixes xs :: "'a::linorder list"
  shows "sorted xs \<Longrightarrow> distinct (remdups_adj xs)"
proof (induction xs rule: remdups_adj.induct)
  case (3 x y xs)
  show ?case
  proof (cases "x = y")
    case True
    then show ?thesis using 3 by simp
  next
    case False
    have "x \<notin> set (y # xs)" using "3.prems" False by auto
    then show ?thesis using 3 False by simp
  qed
qed simp_all

lemma remdups_adj_sort:
  fixes xs :: "'a::linorder list"
  shows "remdups_adj (sort xs) = sort (remdups xs)"
proof -
  have "remdups_adj (sort xs) = sorted_list_of_set (set xs)"
    by (rule sorted_distinct_set_unique) (simp_all add: distinct_remdups_adj_sorted)
  then show ?thesis by (simp only: sorted_list_of_set_sort_remdups)
qed

lemma set_row_subset: "set (row a i) \<subseteq> set (flat a)"
  by (auto simp: row_def dest: in_set_takeD in_set_dropD)

lemma set_rows_subset: "r \<in> set (rows a) \<Longrightarrow> set r \<subseteq> set (flat a)"
  using set_row_subset by (auto simp: rows_def)

lemma np_unique_nan_free:
  assumes "shape a = n # rest" "NaN \<notin> set (flat a)"
  shows "np_unique a = Inr (NDArray (length (sort (remdups (rows a))) # rest)
                              (concat (sort (remdups (rows a)))))"
proof -
  let ?aux = "sort (rows a)"
  let ?ne = "\<lambda>cur prev. \<not> tuple_eq elem_eq cur prev"
  have nf: "\<forall>r \<in> set ?aux. NaN \<notin> set r"
    using set_rows_subset assms(2) by auto
  have "map fst (filter snd (zip ?aux (True # map2 ?ne (tl ?aux) ?aux))) = remdups_adj ?aux"
  proof (cases ?aux)
    case Nil
    then show ?thesis by simp
  next
    case (Cons p xs)
    have "\<forall>r \<in> set (p # xs). NaN \<notin> set r" using nf by (simp only: Cons)
    from kept_rows_remdups_adj[OF this] show ?thesis by (simp add: Cons)
  qed
  then have "map fst (filter snd (zip ?aux (True # map2 ?ne (tl ?aux) ?aux)))
      = sort (remdups (rows a))"
    by (simp only: remdups_adj_sort)
  then show ?thesis
    unfolding np_unique_def assms(1) list.case Let_def by (simp only:)
qed

lemma np_unique_elems:
  assumes "np_unique a = Inr u"
  shows "set (flat u) \<subseteq> set (flat a)"
proof -
  from assms obtain n rest where sh: "shape a = n # rest"
    by (cases "shape a") (auto simp: np_unique_def)
  let ?aux = "sort (rows a)"
  let ?mask = "True # map2 (\<lambda>cur prev. \<not> tuple_eq elem_eq cur prev) (tl ?aux) ?aux"
  have u: "flat u = concat (map fst (filter snd (zip ?aux ?mask)))"
    using assms sh by (auto simp: np_unique_def Let_def)
  have "set (map fst (filter snd (zip ?aux ?mask))) \<subseteq> set (rows a)"
    by (auto dest: set_zip_leftD)
  then show ?thesis unfolding u using set_rows_subset by fastforce
qed

lemma concat_same_length_inj:
  assumes "length xs = length ys"
    and "\<forall>x \<in> set xs. length x = m" "\<forall>y \<in> set ys. length y = m"
    and "concat xs = concat ys"
  shows "xs = ys"
  using assms by (induction xs ys rule: list_induct2) auto

lemma length_rows: "wf_array a \<Longrightarrow> shape a = n # rest \<Longrightarrow> r \<in> set (rows a) \<Longrightarrow> length r = prod_list rest"
  by (auto simp: rows_def length_row)

lemma unique_rows_eq_iff:
  assumes a: "wf_array a" "shape a = n # rest" and b: "wf_array b" "shape b = n' # rest'"
  shows "length (sort (remdups (rows a))) # rest = length (sort (remdups (rows b))) # rest'
           \<and> concat (sort (remdups (rows a))) = concat (sort (remdups (rows b)))
         \<longleftrightarrow> rest = rest' \<and> set (rows a) = set (rows b)"
proof
  assume "rest = rest' \<and> set (rows a) = set (rows b)"
  then have "rest = rest'" "sort (remdups (rows a)) = sort (remdups (rows b))"
    by (simp_all add: sorted_list_of_set_sort_remdups[symmetric])
  then show "length (sort (remdups (rows a))) # rest = length (sort (remdups (rows b))) # rest'
           \<and> concat (sort (remdups (rows a))) = concat (sort (remdups (rows b)))"
    by simp
next
  assume eq: "length (sort (remdups (rows a))) # rest = length (sort (remdups (rows b))) # rest'
           \<and> concat (sort (remdups (rows a))) = concat (sort (remdups (rows b)))"
  then have r: "rest = rest'" by simp
  have "sort (remdups (rows a)) = sort (remdups (rows b))"
  proof (rule concat_same_length_inj[where m = "prod_list rest"])
    show "length (sort (remdups (rows a))) = length (sort (remdups (rows b)))" using eq by simp
    show "\<forall>x \<in> set (sort (remdups (rows a))). length x = prod_list rest"
      using length_rows[OF a] by simp
    show "\<forall>y \<in> set (sort (remdups (rows b))). length y = prod_list rest"
      using length_rows[OF b] r by simp
    show "concat (sort (remdups (rows a))) = concat (sort (remdups (rows b)))" using eq by simp
  qed
  then have "set (sort (remdups (rows a))) = set (sort (remdups (rows b)))" by simp
  then show "rest = rest' \<and> set (rows a) = set (rows b)" using r by simp
qed

subsection \<open>The grouping decorators\<close>

lemma groupby_concat: "concat (map snd (groupby eq f ys)) = ys"
  by (induction eq f ys rule: groupby.induct) auto

lemma groupby_nonempty: "(k, g) \<in> set (groupby eq f ys) \<Longrightarrow> g \<noteq> [] \<and> set g \<subseteq> set ys"
proof (induction eq f ys rule: groupby.induct)
  case (1 eq f)
  then show ?case by simp
next
  case (2 eq f x xs)
  from "2.prems" consider
    (head) "k = f x" "g = x # takeWhile (\<lambda>y. eq (f x) (f y)) xs"
    | (tail) "(k, g) \<in> set (groupby eq f (dropWhile (\<lambda>y. eq (f x) (f y)) xs))"
    by auto
  then show ?case
  proof cases
    case head
    then show ?thesis by (auto dest: set_takeWhileD)
  next
    case tail
    from "2.IH"[OF this] show ?thesis by (auto dest: set_dropWhileD)
  qed
qed

lemma groupby_members:
  "eq = (=) \<Longrightarrow> (k, g) \<in> set (groupby eq f ys) \<Longrightarrow>
   g \<noteq> [] \<and> set g \<subseteq> set ys \<and> (\<forall>y \<in> set g. f y = k)"
proof (induction eq f ys rule: groupby.induct)
  case (1 eq f)
  then show ?case by simp
next
  case (2 eq f x xs)
  from "2.prems" consider
    (head) "k = f x" "g = x # takeWhile (\<lambda>y. f x = f y) xs"
    | (tail) "(k, g) \<in> set (groupby eq f (dropWhile (\<lambda>y. eq (f x) (f y)) xs))"
    by auto
  then show ?case
  proof cases
    case head
    then show ?thesis by (auto dest: set_takeWhileD)
  next
    case tail
    from "2.IH"[OF "2.prems"(1) this] show ?thesis by (auto dest: set_dropWhileD)
  qed
qed

lemma sorted_dropWhile_greater:
  fixes f :: "'a \<Rightarrow> 'k::linorder"
  shows "sorted (map f (x # xs)) \<Longrightarrow> y \<in> set (dropWhile (\<lambda>y. f x = f y) xs) \<Longrightarrow> f x < f y"
  by (induction xs) (auto split: if_splits)

lemma groupby_sorted:
  fixes f :: "'a \<Rightarrow> 'k::linorder"
  shows "eq = (=) \<Longrightarrow> sorted (map f ys) \<Longrightarrow> (k, g) \<in> set (groupby eq f ys) \<Longrightarrow>
         g = filter (\<lambda>y. f y = k) ys"
proof (induction eq f ys rule: groupby.induct)
  case (1 eq f)
  then show ?case by simp
next
  case (2 eq f x xs)
  let ?P = "\<lambda>y. f x = f y"
  note eq = "2.prems"(1)
  have gt: "f x < f y" if "y \<in> set (dropWhile ?P xs)" for y
    using sorted_dropWhile_greater[OF "2.prems"(2) that] .
  have tw: "takeWhile ?P xs = filter ?P xs"
    by (rule takeWhile_eq_filter) (use gt in fastforce)
  have tw': "takeWhile ?P xs = filter (\<lambda>y. f y = f x) xs"
    unfolding tw by (rule filter_cong) auto
  from "2.prems"(3) consider
    (head) "k = f x" "g = x # takeWhile ?P xs"
    | (tail) "(k, g) \<in> set (groupby eq f (dropWhile ?P xs))"
    by (auto simp: eq)
  then show ?case
  proof cases
    case head
    then show ?thesis by (simp add: tw')
  next
    case tail
    have "sorted (map f (dropWhile ?P xs))"
      using "2.prems"(2) by (simp add: sorted_map sorted_wrt_dropWhile)
    from "2.IH"[unfolded eq, OF refl this] tail
    have g: "g = filter (\<lambda>y. f y = k) (dropWhile ?P xs)" by (simp add: eq)
    from groupby_members[OF eq tail] obtain y where "y \<in> set (dropWhile ?P xs)" "f y = k"
      by (cases g) auto
    then have k: "f x < k" using gt by auto
    have "filter (\<lambda>y. f y = k) (takeWhile ?P xs) = []"
      using k by (auto simp: filter_empty_conv dest: set_takeWhileD)
    moreover have "filter (\<lambda>y. f y = k) (takeWhile ?P xs @ dropWhile ?P xs)
        = filter (\<lambda>y. f y = k) (takeWhile ?P xs) @ filter (\<lambda>y. f y = k) (dropWhile ?P xs)"
      by (rule filter_append)
    ultimately have "filter (\<lambda>y. f y = k) xs = g"
      unfolding takeWhile_dropWhile_id g by simp
    moreover have "f x \<noteq> k" using k by simp
    ultimately show ?thesis by simp
  qed
qed

lemma dispatch_ok:
  "\<forall>kg \<in> set groups. snd kg \<noteq> [] \<and> (\<exists>out. wrapped (map (\<lambda>t. snd (snd t)) (snd kg)) = Inr out) \<Longrightarrow>
   dispatch wrapped groups acc =
     (map (\<lambda>kg. map (\<lambda>t. snd (snd t)) (snd kg)) groups,
      Inr (acc @ concat (map (\<lambda>kg. zip (map fst (snd kg))
                                      (projr (wrapped (map (\<lambda>t. snd (snd t)) (snd kg))))) groups)))"
proof (induction groups arbitrary: acc)
  case Nil
  then show ?case by simp
next
  case (Cons kg groups)
  obtain k g where kg: "kg = (k, g)" by (cases kg)
  from Cons.prems obtain out where
    g: "g \<noteq> []" "wrapped (map (\<lambda>t. snd (snd t)) g) = Inr out" by (auto simp: kg)
  have rest: "\<forall>kg \<in> set groups. snd kg \<noteq> [] \<and> (\<exists>out. wrapped (map (\<lambda>t. snd (snd t)) (snd kg)) = Inr out)"
    using Cons.prems by simp
  show ?case
    using g Cons.IH[OF rest, of "acc @ zip (map fst g) out"]
    by (simp add: kg)
qed

lemma filter_nth_upt: "map ((!) l) (filter (\<lambda>i. P (l ! i)) [0..<length l]) = filter P l"
proof -
  have "filter P (map ((!) l) [0..<length l]) = map ((!) l) (filter (\<lambda>i. P (l ! i)) [0..<length l])"
    by (simp add: filter_map comp_def)
  then show ?thesis by (simp add: map_nth)
qed

lemma filter_upt_position:
  assumes "i < n" "P i"
  shows "length (filter P [0..<i]) < length (filter P [0..<n])"
    and "filter P [0..<n] ! length (filter P [0..<i]) = i"
proof -
  have "[0..<n] = [0..<i] @ [i..<n]"
    using assms(1) upt_add_eq_append[of 0 i "n - i"] by simp
  then have "[0..<n] = [0..<i] @ i # [Suc i..<n]"
    using assms(1) by (simp add: upt_conv_Cons)
  then have "filter P [0..<n] = filter P [0..<i] @ i # filter P [Suc i..<n]"
    using assms(2) by simp
  then show "length (filter P [0..<i]) < length (filter P [0..<n])"
    and "filter P [0..<n] ! length (filter P [0..<i]) = i"
    by simp_all
qed

lemma length_filter_take:
  assumes "i \<le> length l"
  shows "length (filter P (take i l)) = length (filter (\<lambda>j. P (l ! j)) [0..<i])"
proof -
  have "take i l = take i (map ((!) l) [0..<length l])" by (simp add: map_nth)
  also have "\<dots> = map ((!) l) (take i [0..<length l])" by (rule take_map)
  also have "take i [0..<length l] = [0..<i]" using assms by simp
  finally have "take i l = map ((!) l) [0..<i]" .
  then show ?thesis by (simp add: filter_map comp_def)
qed

lemma groupby_keys_increasing:
  fixes f :: "'a \<Rightarrow> 'k::linorder"
  shows "eq = (=) \<Longrightarrow> sorted (map f ys) \<Longrightarrow> sorted_wrt (<) (map fst (groupby eq f ys))"
proof (induction eq f ys rule: groupby.induct)
  case (1 eq f)
  then show ?case by simp
next
  case (2 eq f x xs)
  let ?P = "\<lambda>y. f x = f y"
  note eq = "2.prems"(1)
  have "sorted (map f (dropWhile ?P xs))"
    using "2.prems"(2) by (simp add: sorted_map sorted_wrt_dropWhile)
  from "2.IH"[unfolded eq, OF refl this]
  have IH: "sorted_wrt (<) (map fst (groupby (=) f (dropWhile ?P xs)))" .
  have "f x < k" if "k \<in> set (map fst (groupby (=) f (dropWhile ?P xs)))" for k
  proof -
    from that obtain g where kg: "(k, g) \<in> set (groupby (=) f (dropWhile ?P xs))" by auto
    from groupby_members[OF refl kg] obtain y where "y \<in> set (dropWhile ?P xs)" "f y = k"
      by (cases g) auto
    then show ?thesis using sorted_dropWhile_greater[OF "2.prems"(2)] by auto
  qed
  then show ?case using IH by (simp add: eq)
qed

lemma tagged_upt:
  "map (\<lambda>(i, r). (i, key r, r)) (enumerate 0 inputs)
     = map (\<lambda>i. (i, key (inputs ! i), inputs ! i)) [0..<length inputs]"
  by (rule nth_equalityI) (simp_all add: nth_enumerate_eq)

lemma tagged_groups:
  fixes key :: "'q \<Rightarrow> 'k::linorder"
  assumes xs: "xs = map (\<lambda>(i, r). (i, key r, r)) (enumerate 0 inputs)"
    and kg: "(k, g) \<in> set (groupby (=) (\<lambda>t. fst (snd t)) (sort_key (\<lambda>t. fst (snd t)) xs))"
  shows "map fst g = filter (\<lambda>i. key (inputs ! i) = k) [0..<length inputs]"
    and "map (\<lambda>t. snd (snd t)) g = filter (\<lambda>q. key q = k) inputs"
    and "g \<noteq> []"
    and "k \<in> key ` set inputs"
proof -
  let ?\<kappa> = "\<lambda>t::nat \<times> 'k \<times> 'q. fst (snd t)"
  let ?h = "\<lambda>i. (i, key (inputs ! i), inputs ! i)"
  let ?J = "filter (\<lambda>i. key (inputs ! i) = k) [0..<length inputs]"
  have xs': "xs = map ?h [0..<length inputs]" using xs by (simp only: tagged_upt)
  have "g = filter (\<lambda>t. ?\<kappa> t = k) (sort_key ?\<kappa> xs)"
    by (rule groupby_sorted[OF refl _ kg]) (rule sorted_sort_key)
  also have "\<dots> = filter (\<lambda>t. ?\<kappa> t = k) xs" by (rule sort_key_stable)
  also have "\<dots> = map ?h ?J" by (simp add: xs' filter_map comp_def)
  finally have g: "g = map ?h ?J" .
  show 1: "map fst g = ?J" by (simp add: g comp_def)
  have "map (\<lambda>t. snd (snd t)) g = map ((!) inputs) ?J" by (simp add: g comp_def)
  then show "map (\<lambda>t. snd (snd t)) g = filter (\<lambda>q. key q = k) inputs"
    using filter_nth_upt[of inputs "\<lambda>q. key q = k"] by simp
  show 3: "g \<noteq> []" using groupby_members[OF refl kg] by simp
  then obtain j where "j \<in> set ?J" using 1 by (cases ?J) auto
  then show "k \<in> key ` set inputs" by auto
qed

lemma tagged_group_exists:
  fixes key :: "'q \<Rightarrow> 'k::linorder"
  assumes xs: "xs = map (\<lambda>(i, r). (i, key r, r)) (enumerate 0 inputs)"
    and i: "i < length inputs"
  shows "\<exists>g. (key (inputs ! i), g) \<in> set (groupby (=) (\<lambda>t. fst (snd t)) (sort_key (\<lambda>t. fst (snd t)) xs))"
proof -
  let ?\<kappa> = "\<lambda>t::nat \<times> 'k \<times> 'q. fst (snd t)"
  let ?x = "(i, key (inputs ! i), inputs ! i)"
  have "xs = map (\<lambda>i. (i, key (inputs ! i), inputs ! i)) [0..<length inputs]"
    using xs by (simp only: tagged_upt)
  then have "?x \<in> set xs" using i by auto
  then have "?x \<in> set (concat (map snd (groupby (=) ?\<kappa> (sort_key ?\<kappa> xs))))"
    by (simp only: groupby_concat set_sort)
  then obtain k g where kg: "(k, g) \<in> set (groupby (=) ?\<kappa> (sort_key ?\<kappa> xs))" and x: "?x \<in> set g"
    by auto
  from groupby_members[OF refl kg] x have "k = key (inputs ! i)" by auto
  then show ?thesis using kg by auto
qed

lemma regroup_calls:
  fixes key :: "'q \<Rightarrow> 'k::linorder"
  assumes xs: "xs = map (\<lambda>(i, r). (i, key r, r)) (enumerate 0 inputs)"
    and ok: "\<forall>r \<in> set inputs. \<exists>out. wrapped (filter (\<lambda>q. key q = key r) inputs) = Inr out"
  shows "\<exists>ks res. regroup (<) (=) wrapped xs = (map (\<lambda>k. filter (\<lambda>q. key q = k) inputs) ks, Inr res)
           \<and> distinct ks \<and> set ks = key ` set inputs"
proof -
  let ?\<kappa> = "\<lambda>t::nat \<times> 'k \<times> 'q. fst (snd t)"
  let ?thd = "\<lambda>t::nat \<times> 'k \<times> 'q. snd (snd t)"
  define groups where "groups = groupby (=) ?\<kappa> (sort_key ?\<kappa> xs)"
  have grp: "map ?thd (snd kg) = filter (\<lambda>q. key q = fst kg) inputs" "snd kg \<noteq> []"
    "fst kg \<in> key ` set inputs" if "kg \<in> set groups" for kg
  proof -
    from that have m: "(fst kg, snd kg) \<in> set (groupby (=) ?\<kappa> (sort_key ?\<kappa> xs))"
      by (simp only: groups_def prod.collapse)
    show "map ?thd (snd kg) = filter (\<lambda>q. key q = fst kg) inputs"
      by (rule tagged_groups(2)[OF xs m])
    show "snd kg \<noteq> []" by (rule tagged_groups(3)[OF xs m])
    show "fst kg \<in> key ` set inputs" by (rule tagged_groups(4)[OF xs m])
  qed
  have "snd kg \<noteq> [] \<and> (\<exists>out. wrapped (map ?thd (snd kg)) = Inr out)"
    if "kg \<in> set groups" for kg
  proof -
    from grp(3)[OF that] obtain r where "r \<in> set inputs" "fst kg = key r" by auto
    with ok have "\<exists>out. wrapped (filter (\<lambda>q. key q = fst kg) inputs) = Inr out" by simp
    then show ?thesis using grp(1,2)[OF that] by simp
  qed
  then have "\<forall>kg \<in> set groups. snd kg \<noteq> [] \<and> (\<exists>out. wrapped (map ?thd (snd kg)) = Inr out)"
    by blast
  from dispatch_ok[OF this, of "[]"] obtain R where
    d: "dispatch wrapped groups [] = (map (\<lambda>kg. map ?thd (snd kg)) groups, Inr R)"
    by simp
  have calls: "map (\<lambda>kg. map ?thd (snd kg)) groups
             = map (\<lambda>k. filter (\<lambda>q. key q = k) inputs) (map fst groups)"
    using grp(1) by (simp add: comp_def)
  have "sorted_wrt (<) (map fst groups)"
    unfolding groups_def by (rule groupby_keys_increasing[OF refl]) (rule sorted_sort_key)
  then have dist: "distinct (map fst groups)" by (simp add: strict_sorted_iff)
  have st: "set (map fst groups) = key ` set inputs"
  proof
    show "set (map fst groups) \<subseteq> key ` set inputs" using grp(3) by auto
    show "key ` set inputs \<subseteq> set (map fst groups)"
    proof
      fix k assume "k \<in> key ` set inputs"
      then obtain i where "i < length inputs" "k = key (inputs ! i)"
        by (auto simp: in_set_conv_nth)
      with tagged_group_exists[OF xs, of i] show "k \<in> set (map fst groups)"
        by (force simp: groups_def)
    qed
  qed
  have "regroup (<) (=) wrapped xs
      = (map (\<lambda>k. filter (\<lambda>q. key q = k) inputs) (map fst groups),
         Inr (map snd (sort_key fst R)))"
    unfolding regroup_def list_sort_linorder groups_def[symmetric] d calls by simp
  then show ?thesis using dist st by blast
qed

lemma in_set_concat_map: "x \<in> set (f a) \<Longrightarrow> a \<in> set l \<Longrightarrow> x \<in> set (concat (map f l))"
  by auto

lemma regroup_results:
  fixes key :: "'q \<Rightarrow> 'k::linorder"
  assumes xs: "xs = map (\<lambda>(i, r). (i, key r, r)) (enumerate 0 inputs)"
    and ok: "\<forall>r \<in> set inputs. \<exists>out.
               wrapped (filter (\<lambda>q. key q = key r) inputs) = Inr out
             \<and> length out = length (filter (\<lambda>q. key q = key r) inputs)"
  shows "\<exists>res. snd (regroup (<) (=) wrapped xs) = Inr res \<and> length res = length inputs
           \<and> (\<forall>i<length inputs.
                 res ! i = projr (wrapped (filter (\<lambda>q. key q = key (inputs ! i)) inputs))
                             ! length (filter (\<lambda>q. key q = key (inputs ! i)) (take i inputs)))"
proof -
  let ?\<kappa> = "\<lambda>t::nat \<times> 'k \<times> 'q. fst (snd t)"
  let ?thd = "\<lambda>t::nat \<times> 'k \<times> 'q. snd (snd t)"
  let ?n = "length inputs"
  let ?G = "\<lambda>k. filter (\<lambda>q. key q = k) inputs"
  let ?J = "\<lambda>k. filter (\<lambda>i. key (inputs ! i) = k) [0..<?n]"
  let ?out = "\<lambda>k. projr (wrapped (?G k))"
  define groups where "groups = groupby (=) ?\<kappa> (sort_key ?\<kappa> xs)"
  define R where "R = concat (map (\<lambda>kg. zip (map fst (snd kg))
                                      (projr (wrapped (map ?thd (snd kg))))) groups)"
  have grp: "map fst (snd kg) = ?J (fst kg)" "map ?thd (snd kg) = ?G (fst kg)" "snd kg \<noteq> []"
    "fst kg \<in> key ` set inputs" if "kg \<in> set groups" for kg
  proof -
    from that have m: "(fst kg, snd kg) \<in> set (groupby (=) ?\<kappa> (sort_key ?\<kappa> xs))"
      by (simp only: groups_def prod.collapse)
    show "map fst (snd kg) = ?J (fst kg)" by (rule tagged_groups(1)[OF xs m])
    show "map ?thd (snd kg) = ?G (fst kg)" by (rule tagged_groups(2)[OF xs m])
    show "snd kg \<noteq> []" by (rule tagged_groups(3)[OF xs m])
    show "fst kg \<in> key ` set inputs" by (rule tagged_groups(4)[OF xs m])
  qed
  have okk: "wrapped (?G k) = Inr (?out k) \<and> length (?out k) = length (?G k)"
    if "k \<in> key ` set inputs" for k
  proof -
    from that obtain r where "r \<in> set inputs" "k = key r" by auto
    with ok obtain out where "wrapped (?G k) = Inr out" "length out = length (?G k)" by auto
    then show ?thesis by simp
  qed
  have lenout: "length (projr (wrapped (map ?thd (snd kg)))) = length (snd kg)"
    if "kg \<in> set groups" for kg
  proof -
    have "length (?out (fst kg)) = length (?G (fst kg))" using okk grp(4)[OF that] by blast
    moreover have "length (?G (fst kg)) = length (snd kg)"
      using arg_cong[OF grp(2)[OF that], of length] by simp
    ultimately show ?thesis by (simp only: grp(2)[OF that])
  qed
  have "snd kg \<noteq> [] \<and> (\<exists>out. wrapped (map ?thd (snd kg)) = Inr out)"
    if "kg \<in> set groups" for kg
  proof -
    have "\<exists>out. wrapped (map ?thd (snd kg)) = Inr out"
      unfolding grp(2)[OF that] using okk grp(4)[OF that] by blast
    then show ?thesis using grp(3)[OF that] by blast
  qed
  then have "\<forall>kg \<in> set groups. snd kg \<noteq> [] \<and> (\<exists>out. wrapped (map ?thd (snd kg)) = Inr out)"
    by blast
  from dispatch_ok[OF this, of "[]"]
  have d: "dispatch wrapped groups [] = (map (\<lambda>kg. map ?thd (snd kg)) groups, Inr R)"
    by (simp add: R_def)
  have reg: "snd (regroup (<) (=) wrapped xs) = Inr (map snd (sort_key fst R))"
    unfolding regroup_def list_sort_linorder groups_def[symmetric] d by simp
  have "map fst R = concat (map (\<lambda>kg. map fst (snd kg)) groups)"
    unfolding R_def map_concat map_map comp_def
    by (rule arg_cong[where f = concat], rule map_cong[OF refl]) (simp add: lenout)
  also have "\<dots> = map fst (concat (map snd groups))" by (simp add: map_concat comp_def)
  also have "\<dots> = map fst (sort_key ?\<kappa> xs)" by (simp only: groups_def groupby_concat)
  finally have fstR: "map fst R = map fst (sort_key ?\<kappa> xs)" .
  have fxs: "map fst xs = [0..<?n]" using xs by (simp add: tagged_upt comp_def)
  have "mset (map fst R) = image_mset fst (mset xs)"
    by (simp only: fstR mset_map mset_sort)
  also have "\<dots> = mset (map fst xs)" by simp
  finally have ms: "mset (map fst R) = mset [0..<?n]" by (simp only: fxs)
  have distR: "distinct (map fst R)"
    using mset_eq_imp_distinct_iff[OF ms] by simp
  define T where "T = sort_key fst R"
  have "mset (map fst T) = mset [0..<?n]" using ms by (simp add: T_def)
  moreover have "sorted (map fst T)" unfolding T_def by (rule sorted_sort_key)
  ultimately have "sort [0..<?n] = map fst T" by (rule properties_for_sort)
  then have fstT: "map fst T = [0..<?n]" by simp
  then have lenT: "length T = ?n" by (metis length_map length_upt diff_zero)
  have elem: "map snd T ! i = ?out (key (inputs ! i))
                               ! length (filter (\<lambda>q. key q = key (inputs ! i)) (take i inputs))"
    if i: "i < ?n" for i
  proof -
    let ?k = "key (inputs ! i)"
    let ?p = "length (filter (\<lambda>j. key (inputs ! j) = ?k) [0..<i])"
    have "fst (T ! i) = i" using fstT i lenT by (metis nth_map nth_upt add_0)
    then have "(i, map snd T ! i) = T ! i" using i lenT by (simp add: prod_eq_iff)
    then have "(i, map snd T ! i) \<in> set T" using i lenT by (metis nth_mem)
    then have 1: "(i, map snd T ! i) \<in> set R" by (simp add: T_def)
    from tagged_group_exists[OF xs i] obtain g where "(?k, g) \<in> set groups"
      by (auto simp: groups_def)
    note g = grp(1,2)[OF this] lenout[OF this] this
    have p: "?p < length (?J ?k)" "?J ?k ! ?p = i"
      using filter_upt_position[of i ?n "\<lambda>j. key (inputs ! j) = ?k"] i by simp_all
    have lo: "length (?out ?k) = length (?J ?k)" using g(1,2,3) by (metis fst_conv snd_conv length_map)
    have "zip (?J ?k) (?out ?k) ! ?p = (i, ?out ?k ! ?p)" using p lo by simp
    moreover have "?p < length (zip (?J ?k) (?out ?k))" using p lo by simp
    ultimately have "(i, ?out ?k ! ?p) \<in> set (zip (?J ?k) (?out ?k))" by (metis nth_mem)
    moreover have "zip (?J ?k) (?out ?k)
          = zip (map fst (snd (?k, g))) (projr (wrapped (map ?thd (snd (?k, g)))))"
      using g(1,2) by simp
    ultimately have "(i, ?out ?k ! ?p)
          \<in> set (zip (map fst (snd (?k, g))) (projr (wrapped (map ?thd (snd (?k, g))))))"
      by (simp only:)
    then have 2: "(i, ?out ?k ! ?p) \<in> set R"
      unfolding R_def by (rule in_set_concat_map) (rule g(4))
    have "map snd T ! i = ?out ?k ! ?p" by (rule eq_key_imp_eq_value[OF distR 1 2])
    moreover have "?p = length (filter (\<lambda>q. key q = ?k) (take i inputs))"
      using length_filter_take[of i inputs "\<lambda>q. key q = ?k"] i by simp
    ultimately show ?thesis by simp
  qed
  show ?thesis using reg lenT elem by (auto simp: T_def)
qed

lemma regroup_alignment:
  fixes xs :: "(nat \<times> 'k \<times> 'q) list"
  assumes idx: "map fst xs = [0..<n]"
    and ok: "\<forall>kg \<in> set (groupby eq (\<lambda>t. fst (snd t)) (list_sort lt (\<lambda>t. fst (snd t)) xs)).
               \<exists>out. wrapped (map (\<lambda>t. snd (snd t)) (snd kg)) = Inr out
                   \<and> length out = length (snd kg)"
  shows "\<exists>res. regroup lt eq wrapped xs
                 = (map (\<lambda>kg. map (\<lambda>t. snd (snd t)) (snd kg))
                      (groupby eq (\<lambda>t. fst (snd t)) (list_sort lt (\<lambda>t. fst (snd t)) xs)),
                    Inr res)
           \<and> length res = n
           \<and> (\<forall>kg \<in> set (groupby eq (\<lambda>t. fst (snd t)) (list_sort lt (\<lambda>t. fst (snd t)) xs)).
                \<forall>p<length (snd kg).
                  res ! fst (snd kg ! p) = projr (wrapped (map (\<lambda>t. snd (snd t)) (snd kg))) ! p)"
proof -
  let ?\<kappa> = "\<lambda>t::nat \<times> 'k \<times> 'q. fst (snd t)"
  let ?thd = "\<lambda>t::nat \<times> 'k \<times> 'q. snd (snd t)"
  define groups where "groups = groupby eq ?\<kappa> (list_sort lt ?\<kappa> xs)"
  define R where "R = concat (map (\<lambda>kg. zip (map fst (snd kg))
                                      (projr (wrapped (map ?thd (snd kg))))) groups)"
  note ok' = ok[folded groups_def]
  have lenout: "length (projr (wrapped (map ?thd (snd kg)))) = length (snd kg)"
    if "kg \<in> set groups" for kg
    using ok' that by fastforce
  have "snd kg \<noteq> [] \<and> (\<exists>out. wrapped (map ?thd (snd kg)) = Inr out)"
    if "kg \<in> set groups" for kg
  proof -
    from that have "(fst kg, snd kg) \<in> set (groupby eq ?\<kappa> (list_sort lt ?\<kappa> xs))"
      by (simp only: groups_def prod.collapse)
    from groupby_nonempty[OF this] have "snd kg \<noteq> []" by simp
    moreover have "\<exists>out. wrapped (map ?thd (snd kg)) = Inr out" using ok' that by blast
    ultimately show ?thesis by blast
  qed
  then have "\<forall>kg \<in> set groups. snd kg \<noteq> [] \<and> (\<exists>out. wrapped (map ?thd (snd kg)) = Inr out)"
    by blast
  from dispatch_ok[OF this, of "[]"]
  have d: "dispatch wrapped groups [] = (map (\<lambda>kg. map ?thd (snd kg)) groups, Inr R)"
    by (simp add: R_def)
  have reg: "regroup lt eq wrapped xs
           = (map (\<lambda>kg. map ?thd (snd kg)) groups, Inr (map snd (sort_key fst R)))"
    unfolding regroup_def groups_def[symmetric] d by simp
  have "map fst R = concat (map (\<lambda>kg. map fst (snd kg)) groups)"
    unfolding R_def map_concat map_map comp_def
    by (rule arg_cong[where f = concat], rule map_cong[OF refl]) (simp add: lenout)
  also have "\<dots> = map fst (concat (map snd groups))" by (simp add: map_concat comp_def)
  also have "\<dots> = map fst (list_sort lt ?\<kappa> xs)" by (simp only: groups_def groupby_concat)
  finally have fstR: "map fst R = map fst (list_sort lt ?\<kappa> xs)" .
  have "mset (map fst R) = image_mset fst (mset xs)"
    by (simp only: fstR mset_map mset_list_sort)
  also have "\<dots> = mset (map fst xs)" by simp
  finally have ms: "mset (map fst R) = mset [0..<n]" by (simp only: idx)
  have distR: "distinct (map fst R)"
    using mset_eq_imp_distinct_iff[OF ms] by simp
  define T where "T = sort_key fst R"
  have "mset (map fst T) = mset [0..<n]" using ms by (simp add: T_def)
  moreover have "sorted (map fst T)" unfolding T_def by (rule sorted_sort_key)
  ultimately have "sort [0..<n] = map fst T" by (rule properties_for_sort)
  then have fstT: "map fst T = [0..<n]" by simp
  then have lenT: "length T = n" by (metis length_map length_upt diff_zero)
  have elem: "map snd T ! fst (snd kg ! p) = projr (wrapped (map ?thd (snd kg))) ! p"
    if kg: "kg \<in> set groups" and p: "p < length (snd kg)" for kg p
  proof -
    let ?out = "projr (wrapped (map ?thd (snd kg)))"
    let ?i = "fst (snd kg ! p)"
    have "zip (map fst (snd kg)) ?out ! p = (?i, ?out ! p)"
      using p lenout[OF kg] by simp
    moreover have "p < length (zip (map fst (snd kg)) ?out)" using p lenout[OF kg] by simp
    ultimately have "(?i, ?out ! p) \<in> set (zip (map fst (snd kg)) ?out)" by (metis nth_mem)
    then have 2: "(?i, ?out ! p) \<in> set R"
      unfolding R_def by (rule in_set_concat_map) (rule kg)
    then have "?i \<in> set (map fst R)" by force
    then have "?i \<in> set [0..<n]" using ms by (metis set_mset_mset)
    then have i: "?i < n" by simp
    have "fst (T ! ?i) = ?i" using fstT i lenT by (metis nth_map nth_upt add_0)
    then have "(?i, map snd T ! ?i) = T ! ?i" using i lenT by (simp add: prod_eq_iff)
    then have "(?i, map snd T ! ?i) \<in> set T" using i lenT by (metis nth_mem)
    then have 1: "(?i, map snd T ! ?i) \<in> set R" by (simp add: T_def)
    show ?thesis by (rule eq_key_imp_eq_value[OF distR 1 2])
  qed
  have "length (map snd (sort_key fst R)) = n" using lenT by (simp add: T_def)
  then show ?thesis
    using reg elem unfolding groups_def[symmetric] T_def by blast
qed

lemma req_key_ok:
  "batched_keys ks r \<Longrightarrow>
   req_key ks r = Inr (map (\<lambda>k. case map_of r k of
                                  None \<Rightarrow> ([-1], [Num (-1)])
                                | Some a \<Rightarrow> (map int (shape (projr (np_unique a))),
                                             flat (projr (np_unique a)))) ks)"
proof (induction ks)
  case Nil
  then show ?case by simp
next
  case (Cons k ks)
  then have IH: "req_key ks r = Inr (map (\<lambda>k. case map_of r k of
                                  None \<Rightarrow> ([-1], [Num (-1)])
                                | Some a \<Rightarrow> (map int (shape (projr (np_unique a))),
                                             flat (projr (np_unique a)))) ks)"
    by (simp add: batched_keys_def)
  show ?case
  proof (cases "map_of r k")
    case None
    then show ?thesis using IH by simp
  next
    case (Some a)
    then have "shape a \<noteq> []" using Cons.prems by (simp add: batched_keys_def)
    then obtain u where "np_unique a = Inr u"
      by (cases "shape a") (auto simp: np_unique_def Let_def)
    then show ?thesis using IH Some by simp
  qed
qed

lemma tag_values_ok:
  "list_all (batched_keys ks) inputs \<Longrightarrow>
   tag_values ks idx inputs = Inr (map (\<lambda>(i, r). (i, value_tuple ks r, r)) (enumerate idx inputs))"
proof (induction inputs arbitrary: idx)
  case Nil
  then show ?case by simp
next
  case (Cons r inputs)
  then have "batched_keys ks r" by simp
  from req_key_ok[OF this] have "req_key ks r = Inr (value_tuple ks r)"
    by (simp add: value_tuple_def)
  then show ?case using Cons by simp
qed

lemma value_tuple_eq_iff:
  assumes "batched_keys ks r1" "batched_keys ks r2"
  shows "value_tuple ks r1 = value_tuple ks r2 \<longleftrightarrow> list_all (\<lambda>k. same_unique_values k r1 r2) ks"
  using assms
proof (induction ks)
  case Nil
  then show ?case by (simp add: value_tuple_def)
next
  case (Cons k ks)
  then have b: "batched_keys ks r1" "batched_keys ks r2" by (simp_all add: batched_keys_def)
  let ?c = "\<lambda>r k. case map_of r k of
                 None \<Rightarrow> ([-1], [Num (-1)])
               | Some a \<Rightarrow> (map int (shape (projr (np_unique a))), flat (projr (np_unique a)))"
  have vt: "value_tuple (k # ks) r = ?c r k # value_tuple ks r"
    if "batched_keys (k # ks) r" for r
  proof -
    have "batched_keys ks r" using that by (simp add: batched_keys_def)
    then show ?thesis using req_key_ok[OF that] req_key_ok[of ks r]
      by (simp add: value_tuple_def)
  qed
  have comp: "?c r1 k = ?c r2 k \<longleftrightarrow> same_unique_values k r1 r2"
  proof (cases "map_of r1 k"; cases "map_of r2 k")
    fix a b assume ab: "map_of r1 k = Some a" "map_of r2 k = Some b"
    then have "shape a \<noteq> []" "shape b \<noteq> []" using Cons.prems by (simp_all add: batched_keys_def)
    then obtain u v where uv: "np_unique a = Inr u" "np_unique b = Inr v"
      by (cases "shape a"; cases "shape b") (auto simp: np_unique_def Let_def)
    have "map int (shape u) = map int (shape v) \<longleftrightarrow> shape u = shape v"
      by (simp add: inj_map_eq_map inj_on_def)
    then show ?thesis by (simp add: ab uv same_unique_values_def)
  next
    fix a assume a: "map_of r1 k = Some a" "map_of r2 k = None"
    have "map int (shape (projr (np_unique a))) \<noteq> [-1]"
      by (cases "shape (projr (np_unique a))") auto
    then show ?thesis by (auto simp: a same_unique_values_def)
  next
    fix b assume b: "map_of r1 k = None" "map_of r2 k = Some b"
    have "map int (shape (projr (np_unique b))) \<noteq> [-1]"
      by (cases "shape (projr (np_unique b))") auto
    then show ?thesis by (auto simp: b same_unique_values_def)
  qed (simp add: same_unique_values_def)
  show ?case
    using Cons.IH[OF b] comp by (simp add: vt[OF Cons.prems(1)] vt[OF Cons.prems(2)])
qed

lemma mset_partition_by_key:
  "distinct ks \<Longrightarrow>
   mset (concat (map (\<lambda>k. filter (\<lambda>x. f x = k) l) ks)) = mset (filter (\<lambda>x. f x \<in> set ks) l)"
proof (induction ks)
  case Nil
  then show ?case by simp
next
  case (Cons k ks)
  have "filter_mset (\<lambda>x. f x = k) (mset l) + filter_mset (\<lambda>x. f x \<in> set ks) (mset l)
      = filter_mset (\<lambda>x. f x = k \<or> f x \<in> set ks) (mset l)"
    using Cons.prems by (induction l) auto
  then show ?case using Cons by simp
qed

lemma one_result_per_requestD:
  assumes "one_result_per_request wrapped key inputs"
  shows "\<forall>r \<in> set inputs. \<exists>out.
           wrapped (filter (\<lambda>q. key q = key r) inputs) = Inr out
         \<and> length out = length (filter (\<lambda>q. key q = key r) inputs)"
proof
  fix r assume "r \<in> set inputs"
  with assms have "case wrapped (group_of key inputs r) of
                     Inl e \<Rightarrow> False
                   | Inr out \<Rightarrow> length out = length (group_of key inputs r)"
    by (simp add: one_result_per_request_def list_all_iff)
  then show "\<exists>out. wrapped (filter (\<lambda>q. key q = key r) inputs) = Inr out
         \<and> length out = length (filter (\<lambda>q. key q = key r) inputs)"
    by (cases "wrapped (group_of key inputs r)") (auto simp: group_of_def)
qed

lemma returns_on_groupsD:
  assumes "returns_on_groups wrapped key inputs"
  shows "\<forall>r \<in> set inputs. \<exists>out. wrapped (filter (\<lambda>q. key q = key r) inputs) = Inr out"
proof
  fix r assume "r \<in> set inputs"
  with assms have "case wrapped (group_of key inputs r) of Inl e \<Rightarrow> False | Inr out \<Rightarrow> True"
    by (simp add: returns_on_groups_def list_all_iff)
  then show "\<exists>out. wrapped (filter (\<lambda>q. key q = key r) inputs) = Inr out"
    by (cases "wrapped (group_of key inputs r)") (auto simp: group_of_def)
qed


lemma value_tuple_nan_free:
  assumes "batched_keys ks r" "nan_free_keys ks r"
  shows "\<forall>p \<in> set (value_tuple ks r). NaN \<notin> set (snd p)"
proof -
  have "NaN \<notin> set (snd (case map_of r k of
                           None \<Rightarrow> ([-1], [Num (-1)])
                         | Some a \<Rightarrow> (map int (shape (projr (np_unique a))),
                                      flat (projr (np_unique a)))))"
    if "k \<in> set ks" for k
  proof (cases "map_of r k")
    case None
    then show ?thesis by simp
  next
    case (Some a)
    with assms that have "shape a \<noteq> []" "NaN \<notin> set (flat a)"
      by (auto simp: batched_keys_def nan_free_keys_def list_all_iff)
    then obtain u where u: "np_unique a = Inr u"
      by (cases "shape a") (auto simp: np_unique_def Let_def)
    from np_unique_elems[OF u] \<open>NaN \<notin> set (flat a)\<close> have "NaN \<notin> set (flat u)" by auto
    then show ?thesis by (simp add: Some u)
  qed
  then show ?thesis using req_key_ok[OF assms(1)] by (auto simp: value_tuple_def)
qed

lemma same_unique_values_iff:
  assumes b: "batched_keys ks r1" "batched_keys ks r2"
    and n: "nan_free_keys ks r1" "nan_free_keys ks r2"
    and w: "wf_request r1" "wf_request r2"
    and k: "k \<in> set ks"
  shows "same_unique_values k r1 r2 \<longleftrightarrow> same_value_set k r1 r2"
proof (cases "map_of r1 k"; cases "map_of r2 k")
  fix a b assume ab: "map_of r1 k = Some a" "map_of r2 k = Some b"
  then have wf: "wf_array a" "wf_array b"
    using w by (auto simp: wf_request_def list_all_iff dest!: map_of_SomeD)
  have nf: "NaN \<notin> set (flat a)" "NaN \<notin> set (flat b)"
    using n k ab by (auto simp: nan_free_keys_def list_all_iff)
  have "shape a \<noteq> []" "shape b \<noteq> []"
    using b k ab by (auto simp: batched_keys_def list_all_iff)
  then obtain na ra nb rb where sh: "shape a = na # ra" "shape b = nb # rb"
    by (cases "shape a"; cases "shape b") auto
  show ?thesis
    using unique_rows_eq_iff[OF wf(1) sh(1) wf(2) sh(2)]
    by (simp add: same_unique_values_def same_value_set_def ab
        np_unique_nan_free[OF sh(1) nf(1)] np_unique_nan_free[OF sh(2) nf(2)] sh)
qed (simp_all add: same_unique_values_def same_value_set_def)

lemma regroup_value_keys:
  assumes "list_all (batched_keys ks) inputs" "list_all (nan_free_keys ks) inputs"
    and xs: "xs = map (\<lambda>(i, r). (i, value_tuple ks r, r)) (enumerate 0 inputs)"
  shows "regroup value_key_lt value_key_eq wrapped xs = regroup (<) (=) wrapped xs"
proof -
  let ?\<kappa> = "\<lambda>t::nat \<times> value_key \<times> request. fst (snd t)"
  have nf: "\<forall>p \<in> set (?\<kappa> t). NaN \<notin> set (snd p)" if "t \<in> set xs" for t
  proof -
    from that obtain i where "i < length inputs" "?\<kappa> t = value_tuple ks (inputs ! i)"
      by (auto simp: xs in_set_enumerate_eq)
    then have "inputs ! i \<in> set inputs" "?\<kappa> t = value_tuple ks (inputs ! i)" by simp_all
    then obtain r where r: "r \<in> set inputs" "?\<kappa> t = value_tuple ks r" by blast
    then have "batched_keys ks r" "nan_free_keys ks r"
      using assms(1,2) by (simp_all add: list_all_iff)
    from value_tuple_nan_free[OF this] show ?thesis by (simp only: r(2))
  qed
  have s: "list_sort value_key_lt ?\<kappa> xs = list_sort (<) ?\<kappa> xs"
    by (rule list_sort_cong) (simp add: value_key_lt_iff nf)
  have "groupby value_key_eq ?\<kappa> (list_sort (<) ?\<kappa> xs) = groupby (=) ?\<kappa> (list_sort (<) ?\<kappa> xs)"
    by (rule groupby_cong) (simp add: value_key_eq_iff nf list_sort_linorder)
  then show ?thesis by (simp add: regroup_def s)
qed

lemma value_groups_alignment:
  assumes batched: "list_all (batched_keys ks) inputs"
    and one: "one_result_per_group wrapped inputs (value_groups ks inputs)"
  shows "\<exists>res. group_by_values ks wrapped inputs
                 = (map (map ((!) inputs)) (value_groups ks inputs), Inr res)
           \<and> length res = length inputs
           \<and> mset (concat (value_groups ks inputs)) = mset [0..<length inputs]
           \<and> (\<forall>g \<in> set (value_groups ks inputs). \<forall>p<length g.
                 res ! (g ! p) = projr (wrapped (map ((!) inputs) g)) ! p)"
proof -
  let ?\<kappa> = "\<lambda>t::nat \<times> value_key \<times> request. fst (snd t)"
  let ?thd = "\<lambda>t::nat \<times> value_key \<times> request. snd (snd t)"
  define xs where "xs = map (\<lambda>(i, r). (i, value_tuple ks r, r)) (enumerate 0 inputs)"
  define groups where "groups = groupby value_key_eq ?\<kappa> (list_sort value_key_lt ?\<kappa> xs)"
  have tv: "tag_values ks 0 inputs = Inr xs"
    using batched by (simp add: tag_values_ok xs_def)
  have xs': "xs = map (\<lambda>i. (i, value_tuple ks (inputs ! i), inputs ! i)) [0..<length inputs]"
    unfolding xs_def by (rule tagged_upt)
  have idx: "map fst xs = [0..<length inputs]" by (simp add: xs' comp_def)
  have vg: "value_groups ks inputs = map (\<lambda>kg. map fst (snd kg)) groups"
    by (simp add: value_groups_def tv groups_def)
  have thd: "map ?thd (snd kg) = map ((!) inputs) (map fst (snd kg))" if "kg \<in> set groups" for kg
  proof -
    from that have "(fst kg, snd kg) \<in> set (groupby value_key_eq ?\<kappa> (list_sort value_key_lt ?\<kappa> xs))"
      by (simp only: groups_def prod.collapse)
    from groupby_nonempty[OF this] have "set (snd kg) \<subseteq> set (list_sort value_key_lt ?\<kappa> xs)"
      by simp
    also have "\<dots> = set xs" by (metis mset_list_sort set_mset_mset)
    finally have "\<forall>t \<in> set (snd kg). ?thd t = inputs ! fst t" by (auto simp: xs')
    then show ?thesis by simp
  qed
  have ok: "\<forall>kg \<in> set (groupby value_key_eq ?\<kappa> (list_sort value_key_lt ?\<kappa> xs)).
              \<exists>out. wrapped (map ?thd (snd kg)) = Inr out \<and> length out = length (snd kg)"
  proof
    fix kg assume "kg \<in> set (groupby value_key_eq ?\<kappa> (list_sort value_key_lt ?\<kappa> xs))"
    then have kg: "kg \<in> set groups" by (simp only: groups_def)
    then have mem: "map fst (snd kg) \<in> set (value_groups ks inputs)" by (simp add: vg)
    have "\<forall>g \<in> set (value_groups ks inputs).
                     case wrapped (map ((!) inputs) g) of
                       Inl e \<Rightarrow> False
                     | Inr out \<Rightarrow> length out = length g"
      using one by (simp add: one_result_per_group_def list_all_iff)
    then have "case wrapped (map ((!) inputs) (map fst (snd kg))) of
                     Inl e \<Rightarrow> False
                   | Inr out \<Rightarrow> length out = length (map fst (snd kg))"
      using mem by (rule bspec)
    then show "\<exists>out. wrapped (map ?thd (snd kg)) = Inr out \<and> length out = length (snd kg)"
      unfolding thd[OF kg] by (cases "wrapped (map ((!) inputs) (map fst (snd kg)))") simp_all
  qed
  from regroup_alignment[OF idx ok] obtain res where
    r: "regroup value_key_lt value_key_eq wrapped xs = (map (\<lambda>kg. map ?thd (snd kg)) groups, Inr res)"
       "length res = length inputs"
       "\<forall>kg \<in> set groups. \<forall>p<length (snd kg).
          res ! fst (snd kg ! p) = projr (wrapped (map ?thd (snd kg))) ! p"
    unfolding groups_def[symmetric] by blast
  have calls: "map (\<lambda>kg. map ?thd (snd kg)) groups = map (map ((!) inputs)) (value_groups ks inputs)"
    using thd by (simp add: vg)
  have "concat (value_groups ks inputs) = map fst (concat (map snd groups))"
    by (simp add: vg map_concat comp_def)
  also have "\<dots> = map fst (list_sort value_key_lt ?\<kappa> xs)"
    by (simp only: groups_def groupby_concat)
  finally have "mset (concat (value_groups ks inputs)) = image_mset fst (mset xs)"
    by (simp only: mset_map mset_list_sort)
  also have "\<dots> = mset (map fst xs)" by simp
  finally have once: "mset (concat (value_groups ks inputs)) = mset [0..<length inputs]"
    by (simp only: idx)
  have el: "res ! (g ! p) = projr (wrapped (map ((!) inputs) g)) ! p"
    if "g \<in> set (value_groups ks inputs)" "p < length g" for g p
  proof -
    from that(1) obtain kg where kg: "kg \<in> set groups" "g = map fst (snd kg)"
      by (auto simp: vg)
    then have "p < length (snd kg)" using that(2) by simp
    with r(3) kg(1) have "res ! fst (snd kg ! p) = projr (wrapped (map ?thd (snd kg))) ! p"
      by blast
    then show ?thesis using \<open>p < length (snd kg)\<close> by (simp add: kg(2) thd[OF kg(1)])
  qed
  have "group_by_values ks wrapped inputs
      = (map (map ((!) inputs)) (value_groups ks inputs), Inr res)"
    by (simp add: group_by_values_def tv r(1) calls)
  then show ?thesis using r(2) once el by blast
qed

text \<open>
  Claim C1.  If the wrapped stage returns one result per request on every group of
  \<open>group_by_keys\<close> (grouping by the sorted key tuple), then \<open>group_by_keys\<close> returns a list
  as long as the input list whose i-th element is the result that the wrapped stage
  produced for the i-th request: the element, at the request's position in its group, of
  the output for that group.  The same holds for \<open>group_by_values(keys)\<close>, grouping by
  the value tuple, when every grouping tensor has a batch axis and holds no NaN.  And
  whatever the grouping tensors hold, when they have a batch axis and the wrapped stage
  returns one result per request on the groups that \<open>group_by_values(keys)\<close> forms, it
  calls the wrapped stage on exactly these groups, every request index lies in exactly
  one group, the result list is as long as the input list, and the result at the index
  in position \<open>p\<close> of a group is the \<open>p\<close>-th result of the call for that group.
\<close>

theorem grouping_round_trip:
  "(one_result_per_request wrapped key_tuple inputs \<longrightarrow>
      (\<exists>res. snd (group_by_keys wrapped inputs) = Inr res \<and> length res = length inputs
         \<and> (\<forall>i<length inputs.
               res ! i = projr (wrapped (group_of key_tuple inputs (inputs ! i)))
                           ! position_in_group key_tuple inputs i)))
 \<and> (list_all (batched_keys ks) inputs \<and> list_all (nan_free_keys ks) inputs
      \<and> one_result_per_request wrapped (value_tuple ks) inputs \<longrightarrow>
      (\<exists>res. snd (group_by_values ks wrapped inputs) = Inr res \<and> length res = length inputs
         \<and> (\<forall>i<length inputs.
               res ! i = projr (wrapped (group_of (value_tuple ks) inputs (inputs ! i)))
                           ! position_in_group (value_tuple ks) inputs i)))
 \<and> (list_all (batched_keys ks) inputs
      \<and> one_result_per_group wrapped inputs (value_groups ks inputs) \<longrightarrow>
      (\<exists>res. group_by_values ks wrapped inputs
                = (map (map ((!) inputs)) (value_groups ks inputs), Inr res)
         \<and> length res = length inputs
         \<and> mset (concat (value_groups ks inputs)) = mset [0..<length inputs]
         \<and> (\<forall>g \<in> set (value_groups ks inputs). \<forall>p<length g.
               res ! (g ! p) = projr (wrapped (map ((!) inputs) g)) ! p)))"
proof (intro conjI impI)
  assume "one_result_per_request wrapped key_tuple inputs"
  from regroup_results[OF refl one_result_per_requestD[OF this]]
  show "\<exists>res. snd (group_by_keys wrapped inputs) = Inr res \<and> length res = length inputs
         \<and> (\<forall>i<length inputs.
               res ! i = projr (wrapped (group_of key_tuple inputs (inputs ! i)))
                           ! position_in_group key_tuple inputs i)"
    unfolding group_by_keys_def group_of_def position_in_group_def .
next
  assume a: "list_all (batched_keys ks) inputs \<and> list_all (nan_free_keys ks) inputs
      \<and> one_result_per_request wrapped (value_tuple ks) inputs"
  then have tv: "tag_values ks 0 inputs
      = Inr (map (\<lambda>(i, r). (i, value_tuple ks r, r)) (enumerate 0 inputs))"
    by (simp add: tag_values_ok)
  from a have rg: "regroup value_key_lt value_key_eq wrapped
                     (map (\<lambda>(i, r). (i, value_tuple ks r, r)) (enumerate 0 inputs))
                 = regroup (<) (=) wrapped
                     (map (\<lambda>(i, r). (i, value_tuple ks r, r)) (enumerate 0 inputs))"
    by (intro regroup_value_keys[OF _ _ refl]) simp_all
  from a have "one_result_per_request wrapped (value_tuple ks) inputs" by simp
  from regroup_results[OF refl one_result_per_requestD[OF this]]
  show "\<exists>res. snd (group_by_values ks wrapped inputs) = Inr res \<and> length res = length inputs
         \<and> (\<forall>i<length inputs.
               res ! i = projr (wrapped (group_of (value_tuple ks) inputs (inputs ! i)))
                           ! position_in_group (value_tuple ks) inputs i)"
    unfolding group_by_values_def tv sum.case rg group_of_def position_in_group_def .
next
  assume "list_all (batched_keys ks) inputs
      \<and> one_result_per_group wrapped inputs (value_groups ks inputs)"
  then show "\<exists>res. group_by_values ks wrapped inputs
                = (map (map ((!) inputs)) (value_groups ks inputs), Inr res)
         \<and> length res = length inputs
         \<and> mset (concat (value_groups ks inputs)) = mset [0..<length inputs]
         \<and> (\<forall>g \<in> set (value_groups ks inputs). \<forall>p<length g.
               res ! (g ! p) = projr (wrapped (map ((!) inputs) g)) ! p)"
    using value_groups_alignment by blast
qed

theorem grouping_round_trip_witness:
  "snd (group_by_keys describe_group three_requests)
     = Inr [([''a'', ''b''], 2), ([''a''], 1), ([''b'', ''a''], 2)]
   \<and> snd (group_by_values [''a''] describe_group three_requests)
     = Inr [([''a'', ''b''], 2), ([''a''], 1), ([''b'', ''a''], 2)]
   \<and> group_by_values [''t''] describe_group nan_between
     = ([[nan_between ! 0], [nan_between ! 1], [nan_between ! 2]],
        Inr [([''t''], 1), ([''t''], 1), ([''t''], 1)])"
proof -
  let ?expected = "[([''a'', ''b''], 2::nat), ([''a''], 1), ([''b'', ''a''], 2)]"
  let ?separate = "[([''t''], 1::nat), ([''t''], 1), ([''t''], 1)]"
  have three: "i = 0 \<or> i = 1 \<or> i = 2" if "i < length three_requests" for i
    using that by (auto simp: three_requests_def less_Suc_eq numeral_3_eq_3)
  have len: "length three_requests = length ?expected" by (simp add: three_requests_def)
  have hk: "one_result_per_request describe_group key_tuple three_requests" by code_simp
  have hv: "list_all (batched_keys [''a'']) three_requests
          \<and> list_all (nan_free_keys [''a'']) three_requests
          \<and> one_result_per_request describe_group (value_tuple [''a'']) three_requests"
    by code_simp
  have ek: "projr (describe_group (group_of key_tuple three_requests (three_requests ! i)))
              ! position_in_group key_tuple three_requests i = ?expected ! i"
    if "i < length three_requests" for i
    using three[OF that] by (elim disjE; hypsubst; code_simp)
  have ev: "projr (describe_group (group_of (value_tuple [''a'']) three_requests (three_requests ! i)))
              ! position_in_group (value_tuple [''a'']) three_requests i = ?expected ! i"
    if "i < length three_requests" for i
    using three[OF that] by (elim disjE; hypsubst; code_simp)
  note t = grouping_round_trip[of describe_group three_requests "[''a'']"]
  from t hk obtain res where
    r: "snd (group_by_keys describe_group three_requests) = Inr res"
       "length res = length three_requests"
       "\<forall>i<length three_requests.
          res ! i = projr (describe_group (group_of key_tuple three_requests (three_requests ! i)))
                      ! position_in_group key_tuple three_requests i"
    by blast
  have "res = ?expected"
    by (rule nth_equalityI) (use r(2,3) len ek in auto)
  then have 1: "snd (group_by_keys describe_group three_requests) = Inr ?expected"
    using r(1) by simp
  from t hv obtain res' where
    r': "snd (group_by_values [''a''] describe_group three_requests) = Inr res'"
       "length res' = length three_requests"
       "\<forall>i<length three_requests.
          res' ! i = projr (describe_group (group_of (value_tuple [''a'']) three_requests
                                              (three_requests ! i)))
                      ! position_in_group (value_tuple [''a'']) three_requests i"
    by blast
  have "res' = ?expected"
    by (rule nth_equalityI) (use r'(2,3) len ev in auto)
  then have 2: "snd (group_by_values [''a''] describe_group three_requests) = Inr ?expected"
    using r'(1) by simp
  have vg: "value_groups [''t''] nan_between = [[0], [1], [2]]" by code_simp
  have hg: "list_all (batched_keys [''t'']) nan_between
          \<and> one_result_per_group describe_group nan_between (value_groups [''t''] nan_between)"
    unfolding vg by code_simp
  note u = grouping_round_trip[of describe_group nan_between "[''t'']"]
  from u hg obtain res'' where
    r'': "group_by_values [''t''] describe_group nan_between
            = (map (map ((!) nan_between)) (value_groups [''t''] nan_between), Inr res'')"
         "length res'' = length nan_between"
         "\<forall>g \<in> set (value_groups [''t''] nan_between). \<forall>p<length g.
            res'' ! (g ! p) = projr (describe_group (map ((!) nan_between) g)) ! p"
    by blast
  have "res'' ! ([0] ! 0) = projr (describe_group (map ((!) nan_between) [0])) ! 0"
       "res'' ! ([1] ! 0) = projr (describe_group (map ((!) nan_between) [1])) ! 0"
       "res'' ! ([2] ! 0) = projr (describe_group (map ((!) nan_between) [2])) ! 0"
    using r''(3) unfolding vg by simp_all
  then have e: "res'' ! 0 = ([''t''], 1)" "res'' ! 1 = ([''t''], 1)" "res'' ! 2 = ([''t''], 1)"
    by (simp_all add: describe_group_def nan_between_def keys_def)
  have l3: "length res'' = 3" using r''(2) by (simp add: nan_between_def)
  have "res'' = ?separate"
  proof (rule nth_equalityI)
    show "length res'' = length ?separate" using l3 by simp
  next
    fix i assume "i < length res''"
    then have "i = 0 \<or> i = 1 \<or> i = 2" using l3 by (auto simp: less_Suc_eq numeral_3_eq_3)
    then show "res'' ! i = ?separate ! i" using e by auto
  qed
  then have 3: "group_by_values [''t''] describe_group nan_between
     = ([[nan_between ! 0], [nan_between ! 1], [nan_between ! 2]], Inr ?separate)"
    using r''(1) unfolding vg by simp
  show ?thesis using 1 2 3 by simp
qed

text \<open>
  Three requests whose grouping tensors hold \<open>1\<close>, NaN and \<open>1\<close>: the first and the last
  request are equal and have the same de-duplicated tensor, and \<open>group_by_values\<close> calls
  the wrapped stage three times, once for each request.
\<close>

theorem group_by_values_nan_counterexample:
  "fst (group_by_values [''t''] describe_group nan_between)
     = [[nan_between ! 0], [nan_between ! 1], [nan_between ! 2]]
   \<and> value_groups [''t''] nan_between = [[0], [1], [2]]
   \<and> nan_between ! 0 = nan_between ! 2
   \<and> same_unique_values ''t'' (nan_between ! 0) (nan_between ! 2)
   \<and> same_value_set ''t'' (nan_between ! 0) (nan_between ! 2)"
  by code_simp

text \<open>
  Claim C5, for grouping tensors without NaN.  Let every grouping tensor have a batch
  axis and hold no NaN, the requests be well formed and the wrapped stage return on
  every group.  Then the calls that \<open>group_by_values(keys)\<close> makes are given by index
  lists \<open>gs\<close>, one per call, in which every request index occurs exactly once; and two
  requests are in the same call if and only if, for every requested key, both lack the
  key or both hold it with the same de-duplicated tensor (equal shape, equal flattened
  contents); which is the case if and only if, for every requested key, both lack the key
  or both hold it with the same shape behind axis 0 and the same set of rows.
\<close>

theorem group_by_values_same_call:
  assumes batched: "list_all (batched_keys ks) inputs"
    and numbers: "list_all (nan_free_keys ks) inputs"
    and wf: "list_all wf_request inputs"
    and returns: "returns_on_groups wrapped (value_tuple ks) inputs"
  shows "\<exists>gs. fst (group_by_values ks wrapped inputs) = map (map ((!) inputs)) gs
          \<and> mset (concat gs) = mset [0..<length inputs]
          \<and> (\<forall>i<length inputs. \<forall>j<length inputs.
                ((\<exists>g \<in> set gs. i \<in> set g \<and> j \<in> set g)
                   \<longleftrightarrow> list_all (\<lambda>k. same_unique_values k (inputs ! i) (inputs ! j)) ks)
              \<and> ((\<exists>g \<in> set gs. i \<in> set g \<and> j \<in> set g)
                   \<longleftrightarrow> list_all (\<lambda>k. same_value_set k (inputs ! i) (inputs ! j)) ks))"
proof -
  let ?key = "value_tuple ks"
  let ?n = "length inputs"
  let ?J = "\<lambda>k. filter (\<lambda>i. ?key (inputs ! i) = k) [0..<?n]"
  have tv: "tag_values ks 0 inputs
      = Inr (map (\<lambda>(i, r). (i, ?key r, r)) (enumerate 0 inputs))"
    using batched by (simp add: tag_values_ok)
  have rg: "regroup value_key_lt value_key_eq wrapped
              (map (\<lambda>(i, r). (i, ?key r, r)) (enumerate 0 inputs))
          = regroup (<) (=) wrapped (map (\<lambda>(i, r). (i, ?key r, r)) (enumerate 0 inputs))"
    by (rule regroup_value_keys[OF batched numbers refl])
  from regroup_calls[OF refl returns_on_groupsD[OF returns]] obtain kl res where
    r: "regroup (<) (=) wrapped (map (\<lambda>(i, r). (i, ?key r, r)) (enumerate 0 inputs))
          = (map (\<lambda>k. filter (\<lambda>q. ?key q = k) inputs) kl, Inr res)"
       "distinct kl" "set kl = ?key ` set inputs"
    by blast
  define gs where "gs = map ?J kl"
  have calls: "fst (group_by_values ks wrapped inputs) = map (map ((!) inputs)) gs"
  proof -
    have "map ((!) inputs) (?J k) = filter (\<lambda>q. ?key q = k) inputs" for k
      using filter_nth_upt[of inputs "\<lambda>q. ?key q = k"] by simp
    then show ?thesis
      unfolding group_by_values_def tv sum.case rg r(1) gs_def by (simp add: comp_def)
  qed
  have once: "mset (concat gs) = mset [0..<?n]"
  proof -
    have "filter (\<lambda>i. ?key (inputs ! i) \<in> set kl) [0..<?n] = [0..<?n]"
      using r(3) by (auto simp: filter_id_conv)
    then show ?thesis
      using mset_partition_by_key[OF r(2), of "\<lambda>i. ?key (inputs ! i)" "[0..<?n]"]
      by (simp add: gs_def)
  qed
  have same: "((\<exists>g \<in> set gs. i \<in> set g \<and> j \<in> set g)
                \<longleftrightarrow> list_all (\<lambda>k. same_unique_values k (inputs ! i) (inputs ! j)) ks)
            \<and> ((\<exists>g \<in> set gs. i \<in> set g \<and> j \<in> set g)
                \<longleftrightarrow> list_all (\<lambda>k. same_value_set k (inputs ! i) (inputs ! j)) ks)"
    if ij: "i < ?n" "j < ?n" for i j
  proof -
    have bi: "batched_keys ks (inputs ! i)" "batched_keys ks (inputs ! j)"
      using batched ij by (simp_all add: list_all_length)
    have ni: "nan_free_keys ks (inputs ! i)" "nan_free_keys ks (inputs ! j)"
      using numbers ij by (simp_all add: list_all_length)
    have wi: "wf_request (inputs ! i)" "wf_request (inputs ! j)"
      using wf ij by (simp_all add: list_all_length)
    have "(\<exists>g \<in> set gs. i \<in> set g \<and> j \<in> set g) \<longleftrightarrow> ?key (inputs ! i) = ?key (inputs ! j)"
    proof
      assume "\<exists>g \<in> set gs. i \<in> set g \<and> j \<in> set g"
      then show "?key (inputs ! i) = ?key (inputs ! j)" by (auto simp: gs_def)
    next
      assume eq: "?key (inputs ! i) = ?key (inputs ! j)"
      have "?key (inputs ! i) \<in> set kl" using r(3) ij(1) by simp
      then have "?J (?key (inputs ! i)) \<in> set gs" by (simp add: gs_def)
      moreover have "i \<in> set (?J (?key (inputs ! i)))" "j \<in> set (?J (?key (inputs ! i)))"
        using ij eq by simp_all
      ultimately show "\<exists>g \<in> set gs. i \<in> set g \<and> j \<in> set g" by blast
    qed
    then have 1: "(\<exists>g \<in> set gs. i \<in> set g \<and> j \<in> set g)
                \<longleftrightarrow> list_all (\<lambda>k. same_unique_values k (inputs ! i) (inputs ! j)) ks"
      using value_tuple_eq_iff[OF bi] by simp
    have "list_all (\<lambda>k. same_unique_values k (inputs ! i) (inputs ! j)) ks
        \<longleftrightarrow> list_all (\<lambda>k. same_value_set k (inputs ! i) (inputs ! j)) ks"
      unfolding list_all_iff using same_unique_values_iff[OF bi ni wi] by blast
    with 1 show ?thesis by blast
  qed
  show ?thesis using calls once same by blast
qed

theorem group_by_values_same_call_witness:
  "\<exists>gs. fst (group_by_values [''t''] describe_group repeated_values)
           = map (map ((!) repeated_values)) gs
      \<and> (\<exists>g \<in> set gs. 0 \<in> set g \<and> 2 \<in> set g)
      \<and> \<not> (\<exists>g \<in> set gs. 0 \<in> set g \<and> 1 \<in> set g)"
proof -
  have b: "list_all (batched_keys [''t'']) repeated_values" by code_simp
  have n: "list_all (nan_free_keys [''t'']) repeated_values" by code_simp
  have w: "list_all wf_request repeated_values" by code_simp
  have r: "returns_on_groups describe_group (value_tuple [''t'']) repeated_values" by code_simp
  have s02: "list_all (\<lambda>k. same_value_set k (repeated_values ! 0) (repeated_values ! 2)) [''t'']"
    by code_simp
  have s01: "\<not> list_all (\<lambda>k. same_value_set k (repeated_values ! 0) (repeated_values ! 1)) [''t'']"
    by code_simp
  have l: "0 < length repeated_values" "1 < length repeated_values" "2 < length repeated_values"
    by (simp_all add: repeated_values_def)
  from group_by_values_same_call[OF b n w r] obtain gs where
    g: "fst (group_by_values [''t''] describe_group repeated_values)
          = map (map ((!) repeated_values)) gs"
       "\<forall>i<length repeated_values. \<forall>j<length repeated_values.
          ((\<exists>g \<in> set gs. i \<in> set g \<and> j \<in> set g)
            \<longleftrightarrow> list_all (\<lambda>k. same_unique_values k (repeated_values ! i) (repeated_values ! j)) [''t''])
        \<and> ((\<exists>g \<in> set gs. i \<in> set g \<and> j \<in> set g)
            \<longleftrightarrow> list_all (\<lambda>k. same_value_set k (repeated_values ! i) (repeated_values ! j)) [''t''])"
    by blast
  have "\<exists>g \<in> set gs. 0 \<in> set g \<and> 2 \<in> set g" using g(2) l s02 by blast
  moreover have "\<not> (\<exists>g \<in> set gs. 0 \<in> set g \<and> 1 \<in> set g)" using g(2) l s01 by blast
  ultimately show ?thesis using g(1) by blast
qed

subsection \<open>Merging and splitting in \<open>batch\<close>\<close>

lemma gather_ok:
  "\<forall>r \<in> set reqs. n \<in> set (keys r) \<Longrightarrow> gather n reqs = Inr (tensors_of reqs n)"
proof (induction reqs)
  case Nil
  then show ?case by (simp add: tensors_of_def)
next
  case (Cons r reqs)
  then have "n \<in> fst ` set r" by (simp add: keys_def)
  then obtain a where "map_of r n = Some a"
    by (cases "map_of r n") (auto simp: map_of_eq_None_iff)
  then show ?case using Cons by (simp add: tensors_of_def getitem_def)
qed

lemma np_concatenate_ok:
  assumes "arrs \<noteq> []"
    and "list_all (\<lambda>a. shape a \<noteq> []) arrs"
    and "list_all (\<lambda>a. tl (shape a) = tl (shape (hd arrs))) arrs"
  shows "np_concatenate arrs
       = Inr (NDArray (sum_list (map (\<lambda>a. hd (shape a)) arrs) # tl (shape (hd arrs)))
               (concat (map flat arrs)))"
proof -
  from assms(1) obtain a rest where ar: "arrs = a # rest" by (cases arrs) auto
  have 1: "\<not> list_ex (\<lambda>x. shape x = []) arrs" using assms(2) by (auto simp: list_ex_iff list_all_iff)
  have 2: "\<not> list_ex (\<lambda>x. tl (shape x) \<noteq> tl (shape a)) rest"
    using assms(3) by (auto simp: list_ex_iff list_all_iff ar)
  show ?thesis using 1 2 by (simp add: np_concatenate_def ar)
qed

lemma merge_inputs_ok:
  assumes "\<forall>n \<in> set names. gather n reqs = Inr (tensors_of reqs n)
                           \<and> np_concatenate (tensors_of reqs n) = Inr (merged_input reqs n)"
    and "distinct (keys acc)"
  shows "\<exists>inputs. merge_inputs names reqs acc = Inr inputs \<and> distinct (keys inputs)
           \<and> (\<forall>n. map_of inputs n
                    = (if n \<in> set names then Some (merged_input reqs n) else map_of acc n))"
  using assms
proof (induction names arbitrary: acc)
  case Nil
  then show ?case by simp
next
  case (Cons m names)
  let ?acc = "setitem acc m (merged_input reqs m)"
  have d: "distinct (keys ?acc)"
    using Cons.prems(2) by (simp add: keys_def setitem_def distinct_update)
  have "\<forall>n \<in> set names. gather n reqs = Inr (tensors_of reqs n)
                           \<and> np_concatenate (tensors_of reqs n) = Inr (merged_input reqs n)"
    using Cons.prems(1) by simp
  from Cons.IH[OF this d] obtain inputs where
    i: "merge_inputs names reqs ?acc = Inr inputs" "distinct (keys inputs)"
       "\<forall>n. map_of inputs n
              = (if n \<in> set names then Some (merged_input reqs n) else map_of ?acc n)"
    by blast
  have "merge_inputs (m # names) reqs acc = Inr inputs"
    using Cons.prems(1) i(1) by simp
  moreover have "\<forall>n. map_of inputs n
              = (if n \<in> set (m # names) then Some (merged_input reqs n) else map_of acc n)"
    using i(3) by (simp add: setitem_def update_conv')
  ultimately show ?case using i(2) by blast
qed

lemma dict_update_lookup:
  "distinct (keys e) \<Longrightarrow>
   map_of (dict_update d e) n = (case map_of e n of Some v \<Rightarrow> Some v | None \<Rightarrow> map_of d n)"
proof (induction e arbitrary: d)
  case Nil
  then show ?case by (simp add: dict_update_def)
next
  case (Cons kv e)
  obtain k v where kv: "kv = (k, v)" by (cases kv)
  have d: "distinct (keys e)" and fresh: "map_of e k = None"
    using Cons.prems by (auto simp: keys_def kv map_of_eq_None_iff)
  have "map_of (dict_update (setitem d k v) e) n
      = (case map_of e n of Some w \<Rightarrow> Some w | None \<Rightarrow> map_of (setitem d k v) n)"
    by (rule Cons.IH[OF d])
  moreover have "dict_update d (kv # e) = dict_update (setitem d k v) e"
    by (simp add: dict_update_def kv)
  ultimately show ?case using fresh
    by (auto simp: kv setitem_def update_conv' split: option.splits)
qed

lemma slice_rows_ok: "shape a \<noteq> [] \<Longrightarrow> slice_rows a lo hi = Inr (slice_of a lo hi)"
  by (cases "shape a") (auto simp: slice_rows_def slice_of_def Let_def)

lemma slice_outputs_ok:
  assumes "distinct names" "set names \<inter> set (keys acc) = {}"
    and "\<forall>n \<in> set names. \<exists>a. map_of outs n = Some a \<and> shape a \<noteq> []"
  shows "slice_outputs outs names lo hi acc
       = Inr (acc @ map (\<lambda>n. (n, slice_of (the (map_of outs n)) lo hi)) names)"
  using assms
proof (induction names arbitrary: acc)
  case Nil
  then show ?case by simp
next
  case (Cons n names)
  from Cons.prems(3) obtain a where a: "map_of outs n = Some a" "shape a \<noteq> []" by auto
  have fresh: "n \<notin> set (keys acc)" using Cons.prems(2) by simp
  let ?acc = "acc @ [(n, slice_of a lo hi)]"
  have 1: "distinct names" using Cons.prems(1) by simp
  have 2: "set names \<inter> set (keys ?acc) = {}"
    using Cons.prems(1,2) by (auto simp: keys_def)
  have 3: "\<forall>n \<in> set names. \<exists>a. map_of outs n = Some a \<and> shape a \<noteq> []"
    using Cons.prems(3) by simp
  show ?case
    using Cons.IH[OF 1 2 3] a slice_rows_ok[OF a(2), of lo hi] setitem_fresh[OF fresh]
    by (simp add: getitem_def)
qed

lemma map_over_own_keys:
  assumes "distinct (map fst d)"
  shows "map (\<lambda>n. (n, g (the (map_of d n)))) (map fst d) = map (\<lambda>kv. (fst kv, g (snd kv))) d"
proof -
  have "(fst kv, g (the (map_of d (fst kv)))) = (fst kv, g (snd kv))" if "kv \<in> set d" for kv
  proof -
    have "map_of d (fst kv) = Some (snd kv)"
      using assms that by (intro map_of_is_SomeI) auto
    then show ?thesis by simp
  qed
  then show ?thesis by (simp add: comp_def)
qed

lemma slice_all_outputs:
  assumes "distinct (keys outs)" "list_all (\<lambda>kv. shape (snd kv) \<noteq> []) outs"
  shows "slice_outputs outs (keys outs) lo hi []
       = Inr (map (\<lambda>kv. (fst kv, slice_of (snd kv) lo hi)) outs)"
proof -
  have "\<exists>a. map_of outs n = Some a \<and> shape a \<noteq> []" if "n \<in> set (keys outs)" for n
  proof -
    from that obtain a where a: "(n, a) \<in> set outs" by (auto simp: keys_def)
    then have "map_of outs n = Some a"
      using assms(1) by (intro map_of_is_SomeI) (auto simp: keys_def)
    moreover have "shape a \<noteq> []" using assms(2) a by (auto simp: list_all_iff)
    ultimately show ?thesis by blast
  qed
  then have "slice_outputs outs (keys outs) lo hi []
       = Inr ([] @ map (\<lambda>n. (n, slice_of (the (map_of outs n)) lo hi)) (keys outs))"
    using assms(1) by (intro slice_outputs_ok) (auto simp: keys_def)
  then show ?thesis
    using map_over_own_keys[of outs "\<lambda>a. slice_of a lo hi"] assms(1)
    by (simp add: keys_def)
qed

lemma split_outputs_ok:
  assumes "distinct (keys outs)" "list_all (\<lambda>kv. shape (snd kv) \<noteq> []) outs"
    and "list_all (\<lambda>r. r \<noteq> [] \<and> shape (snd (hd r)) \<noteq> []) reqs"
  shows "split_outputs outs reqs start acc
       = Inr (acc @ map (\<lambda>i. map (\<lambda>kv. (fst kv,
                                     slice_of (snd kv)
                                       (start + sum_list (take i (local_batch_sizes reqs)))
                                       (start + sum_list (take (Suc i) (local_batch_sizes reqs)))))
                             outs)
                     [0..<length reqs])"
  using assms(3)
proof (induction reqs arbitrary: start acc)
  case Nil
  then show ?case by simp
next
  case (Cons r reqs)
  then obtain first_name first_input later where r: "r = (first_name, first_input) # later"
    by (cases r) auto
  then obtain b rest where b: "shape first_input = b # rest"
    using Cons.prems by (cases "shape first_input") auto
  have bs: "local_batch_sizes (r # reqs) = b # local_batch_sizes reqs" by (simp add: local_batch_sizes_def r b)
  have rest: "list_all (\<lambda>r. r \<noteq> [] \<and> shape (snd (hd r)) \<noteq> []) reqs" using Cons.prems by simp
  let ?f = "\<lambda>i. map (\<lambda>kv. (fst kv,
                         slice_of (snd kv)
                           (start + sum_list (take i (local_batch_sizes (r # reqs))))
                           (start + sum_list (take (Suc i) (local_batch_sizes (r # reqs))))))
                 outs"
  have shift: "map ?f [0..<length (r # reqs)] = ?f 0 # map (\<lambda>i. ?f (Suc i)) [0..<length reqs]"
    by (simp add: map_upt_Suc del: upt_Suc)
  have f0: "?f 0 = map (\<lambda>kv. (fst kv, slice_of (snd kv) start (start + b))) outs"
    by (simp add: bs)
  have "split_outputs outs (r # reqs) start acc
      = split_outputs outs reqs (start + b)
          (acc @ [map (\<lambda>kv. (fst kv, slice_of (snd kv) start (start + b))) outs])"
    using slice_all_outputs[OF assms(1,2), of start "start + b"]
    by (simp add: r b shape0_def)
  then have "split_outputs outs (r # reqs) start acc
      = split_outputs outs reqs (start + b) (acc @ [?f 0])"
    by (simp only: f0)
  also have "\<dots> = Inr ((acc @ [?f 0]) @ map (\<lambda>i. ?f (Suc i)) [0..<length reqs])"
    unfolding Cons.IH[OF rest] by (simp add: bs add.assoc)
  finally show ?case unfolding shift by simp
qed

lemma concat_slices:
  "concat (map (\<lambda>i. take (bs ! i * m) (drop (sum_list (take i bs) * m) xs)) [0..<length bs])
     = take (sum_list bs * m) xs"
proof (induction bs rule: rev_induct)
  case Nil
  then show ?case by simp
next
  case (snoc b bs)
  let ?F = "\<lambda>i. take ((bs @ [b]) ! i * m) (drop (sum_list (take i (bs @ [b])) * m) xs)"
  let ?G = "\<lambda>i. take (bs ! i * m) (drop (sum_list (take i bs) * m) xs)"
  have eq: "map ?F [0..<length bs] = map ?G [0..<length bs]"
    by (rule map_cong[OF refl]) (simp add: nth_append)
  have last: "?F (length bs) = take (b * m) (drop (sum_list bs * m) xs)" by simp
  have "concat (map ?F [0..<length (bs @ [b])]) = concat (map ?F [0..<length bs]) @ ?F (length bs)"
    by simp
  also have "\<dots> = concat (map ?G [0..<length bs]) @ take (b * m) (drop (sum_list bs * m) xs)"
    by (simp only: eq last)
  also have "\<dots> = take (sum_list bs * m) xs @ take (b * m) (drop (sum_list bs * m) xs)"
    by (simp only: snoc.IH)
  also have "\<dots> = take (sum_list bs * m + b * m) xs" by (simp add: take_add)
  finally show ?case by (simp add: add_mult_distrib)
qed

lemma sum_take_Suc:
  "i < length bs \<Longrightarrow> sum_list (take (Suc i) bs) = sum_list (take i bs) + bs ! i"
  by (simp add: take_Suc_conv_app_nth)

lemma sum_take_le: "sum_list (take i bs) \<le> sum_list (bs :: nat list)"
proof -
  have "sum_list bs = sum_list (take i bs) + sum_list (drop i bs)"
    by (metis append_take_drop_id sum_list_append)
  then show ?thesis by simp
qed

lemma slice_of_in_range:
  assumes "shape a = n # rest" "lo \<le> hi" "hi \<le> n"
  shows "slice_of a lo hi
       = NDArray ((hi - lo) # rest)
           (take ((hi - lo) * prod_list rest) (drop (lo * prod_list rest) (flat a)))"
  using assms by (simp add: slice_of_def slice_rows_def Let_def min_def)

lemma concatenate_slices:
  assumes wf: "wf_array a" and sh: "shape a \<noteq> []" and total: "hd (shape a) = sum_list bs"
    and ne: "bs \<noteq> []"
  shows "np_concatenate (map (\<lambda>i. slice_of a (sum_list (take i bs)) (sum_list (take (Suc i) bs)))
                           [0..<length bs]) = Inr a"
proof -
  from sh total obtain rest where a: "shape a = sum_list bs # rest" by (cases "shape a") auto
  let ?m = "prod_list rest"
  let ?s = "\<lambda>i. slice_of a (sum_list (take i bs)) (sum_list (take (Suc i) bs))"
  have s: "?s i = NDArray (bs ! i # rest)
                    (take (bs ! i * ?m) (drop (sum_list (take i bs) * ?m) (flat a)))"
    if "i < length bs" for i
  proof -
    have "sum_list (take (Suc i) bs) \<le> sum_list bs" by (rule sum_take_le)
    then show ?thesis
      using slice_of_in_range[OF a, of "sum_list (take i bs)" "sum_list (take (Suc i) bs)"]
      by (simp add: sum_take_Suc[OF that])
  qed
  let ?arrs = "map ?s [0..<length bs]"
  have arrs: "?arrs = map (\<lambda>i. NDArray (bs ! i # rest)
                    (take (bs ! i * ?m) (drop (sum_list (take i bs) * ?m) (flat a))))
                  [0..<length bs]"
    by (rule map_cong[OF refl]) (simp add: s)
  have 1: "?arrs \<noteq> []" using ne by simp
  have "hd ?arrs = ?s 0" using ne by (simp add: hd_map upt_conv_Cons)
  then have hd: "tl (shape (hd ?arrs)) = rest"
    using s[of 0] ne by simp
  have 2: "list_all (\<lambda>a. shape a \<noteq> []) ?arrs" by (simp add: arrs list_all_iff)
  have 3: "list_all (\<lambda>a. tl (shape a) = tl (shape (hd ?arrs))) ?arrs"
    unfolding hd by (simp add: arrs list_all_iff)
  have sum: "sum_list (map (\<lambda>a. hd (shape a)) ?arrs) = sum_list bs"
  proof -
    have "map (\<lambda>a. hd (shape a)) ?arrs = map ((!) bs) [0..<length bs]"
      by (simp add: arrs comp_def)
    then show ?thesis by (simp add: map_nth)
  qed
  have "concat (map flat ?arrs)
      = concat (map (\<lambda>i. take (bs ! i * ?m) (drop (sum_list (take i bs) * ?m) (flat a)))
                  [0..<length bs])"
    by (simp add: arrs comp_def)
  also have "\<dots> = take (sum_list bs * ?m) (flat a)" by (rule concat_slices)
  also have "\<dots> = flat a" using wf a by (simp add: wf_array_def)
  finally have flat: "concat (map flat ?arrs) = flat a" .
  have "np_concatenate ?arrs = Inr (NDArray (sum_list bs # rest) (flat a))"
    unfolding np_concatenate_ok[OF 1 2 3] sum hd flat ..
  then show ?thesis using a by (cases a) simp
qed

lemma mergeableD:
  assumes "mergeable req_list"
  shows "req_list \<noteq> []"
    and "\<forall>r \<in> set req_list. set (keys r) = set (keys (hd req_list))"
    and "\<forall>r \<in> set req_list. uniform_request r"
    and "\<forall>n \<in> set (keys (hd req_list)).
           list_all (\<lambda>a. tl (shape a) = tl (shape (hd (tensors_of req_list n))))
             (tensors_of req_list n)"
  using assms
  unfolding mergeable_def list_all_iff[of _ req_list] list_all_iff[of _ "keys (hd req_list)"]
  by blast+

lemma uniform_requestD:
  assumes "uniform_request r"
  shows "r \<noteq> []"
    and "kv \<in> set r \<Longrightarrow> shape (snd kv) \<noteq> []"
    and "kv \<in> set r \<Longrightarrow> hd (shape (snd kv)) = hd (shape (snd (hd r)))"
proof -
  show "r \<noteq> []" using assms unfolding uniform_request_def by (rule conjunct1)
  have all: "\<forall>kv \<in> set r. shape (snd kv) \<noteq> []
                              \<and> hd (shape (snd kv)) = hd (shape (snd (hd r)))"
    using assms unfolding uniform_request_def list_all_iff by (rule conjunct2)
  show "kv \<in> set r \<Longrightarrow> shape (snd kv) \<noteq> []" using all by blast
  show "kv \<in> set r \<Longrightarrow> hd (shape (snd kv)) = hd (shape (snd (hd r)))" using all by blast
qed

lemma mergeable_inputs:
  assumes m: "mergeable req_list" and n: "n \<in> set (keys (hd req_list))"
  shows "gather n req_list = Inr (tensors_of req_list n)"
    and "np_concatenate (tensors_of req_list n) = Inr (merged_input req_list n)"
    and "hd (shape (merged_input req_list n)) = sum_list (local_batch_sizes req_list)"
proof -
  note ne = mergeableD(1)[OF m] and ks = mergeableD(2)[OF m] and un = mergeableD(3)[OF m]
  from mergeableD(4)[OF m] n
  have tl: "list_all (\<lambda>a. tl (shape a) = tl (shape (hd (tensors_of req_list n))))
               (tensors_of req_list n)"
    by (rule bspec)
  have mem: "n \<in> set (keys r)" if "r \<in> set req_list" for r using ks n that by simp
  then show "gather n req_list = Inr (tensors_of req_list n)" by (intro gather_ok) simp
  have t: "shape (the (map_of r n)) \<noteq> [] \<and>
           hd (shape (the (map_of r n))) = hd (shape (snd (hd r)))"
    if r: "r \<in> set req_list" for r
  proof -
    from mem[OF r] obtain a where "map_of r n = Some a"
      by (cases "map_of r n") (auto simp: keys_def map_of_eq_None_iff)
    moreover from this have in_r: "(n, a) \<in> set r" by (rule map_of_SomeD)
    moreover from un r have u: "uniform_request r" by (rule bspec)
    moreover note uniform_requestD(2,3)[OF u in_r]
    ultimately show ?thesis by simp
  qed
  have 1: "tensors_of req_list n \<noteq> []" using ne by (simp add: tensors_of_def)
  have 2: "list_all (\<lambda>a. shape a \<noteq> []) (tensors_of req_list n)"
    using t by (simp add: tensors_of_def list_all_iff)
  show "np_concatenate (tensors_of req_list n) = Inr (merged_input req_list n)"
    unfolding merged_input_def by (rule np_concatenate_ok[OF 1 2 tl])
  have "map (\<lambda>a. hd (shape a)) (tensors_of req_list n) = local_batch_sizes req_list"
    using t by (simp add: tensors_of_def local_batch_sizes_def)
  then show "hd (shape (merged_input req_list n)) = sum_list (local_batch_sizes req_list)"
    by (simp add: merged_input_def)
qed

text \<open>
  Claim C2.  For a mergeable request list with local batch sizes \<open>[b0, b1, ...]\<close>, \<open>batch\<close>
  calls the wrapped callable exactly once; the keyword arguments of that call hold, under
  every input name, the concatenation along axis 0 of all requests' tensors for that name
  in request order, whose axis-0 length is the sum of the \<open>b_i\<close>, and all other keyword
  arguments unchanged.  Whenever the callable returns and its output normalises to a dict
  of tensors with a batch axis, \<open>batch\<close> returns one result per request, the i-th mapping
  every output name to the slice \<open>[b0 + ... + b_{i-1}, b0 + ... + b_i)\<close> of that output;
  and for an output whose axis-0 length is the sum of the \<open>b_i\<close>, concatenating the
  per-request slices gives the output back.
\<close>

theorem batch_merge_split:
  assumes m: "mergeable req_list"
  shows "\<exists>new_kwargs.
      fst (batch wrapped caller req_list kwargs) = [new_kwargs]
    \<and> (\<forall>n \<in> set (keys (hd req_list)).
          map_of new_kwargs n = Some (Array (merged_input req_list n))
        \<and> hd (shape (merged_input req_list n)) = sum_list (local_batch_sizes req_list))
    \<and> (\<forall>n. n \<notin> set (keys (hd req_list)) \<longrightarrow> map_of new_kwargs n = map_of kwargs n)
    \<and> (\<forall>returned outs.
          wrapped new_kwargs = Inr returned \<longrightarrow>
          convert_output returned caller None = Inr outs \<longrightarrow>
          distinct (keys outs) \<longrightarrow> list_all (\<lambda>kv. shape (snd kv) \<noteq> []) outs \<longrightarrow>
          (\<exists>out_list.
              snd (batch wrapped caller req_list kwargs) = Inr out_list
            \<and> length out_list = length req_list
            \<and> (\<forall>i<length req_list.
                 list_all2 (\<lambda>kv kv'. fst kv' = fst kv \<and>
                      slice_rows (snd kv) (sum_list (take i (local_batch_sizes req_list)))
                                 (sum_list (take (Suc i) (local_batch_sizes req_list))) = Inr (snd kv'))
                   outs (out_list ! i))
            \<and> (\<forall>kv \<in> set outs.
                 wf_array (snd kv) \<and> hd (shape (snd kv)) = sum_list (local_batch_sizes req_list) \<longrightarrow>
                 np_concatenate (map (\<lambda>d. the (map_of d (fst kv))) out_list) = Inr (snd kv))))"
proof -
  let ?bs = "local_batch_sizes req_list"
  from mergeableD(1)[OF m] obtain req0 others where rl: "req_list = req0 # others"
    by (cases req_list) auto
  have same: "\<not> list_ex (\<lambda>req_dict2. set (keys req0) \<noteq> set (keys req_dict2)) others"
    using mergeableD(2)[OF m] by (simp add: rl list_ex_iff)
  have "\<forall>n \<in> set (keys req0). gather n req_list = Inr (tensors_of req_list n)
          \<and> np_concatenate (tensors_of req_list n) = Inr (merged_input req_list n)"
    using mergeable_inputs(1,2)[OF m] by (simp add: rl)
  moreover have "distinct (keys ([] :: request))" by (simp add: keys_def)
  ultimately obtain inputs where
    inp: "merge_inputs (keys req0) req_list [] = Inr inputs" "distinct (keys inputs)"
    and inp0: "\<forall>n. map_of inputs n
                = (if n \<in> set (keys req0) then Some (merged_input req_list n)
                   else map_of [] n)"
    using merge_inputs_ok[of "keys req0" req_list "[]"] by blast
  have inp3: "map_of inputs n
                = (if n \<in> set (keys req0) then Some (merged_input req_list n) else None)" for n
    using inp0 by simp
  define new_kwargs where
    "new_kwargs = dict_update kwargs (map (\<lambda>(k, a). (k, Array a)) inputs)"
  have de: "distinct (keys (map (\<lambda>(k, a). (k, Array a)) inputs))"
    using inp(2) by (simp add: keys_def comp_def case_prod_unfold)
  have look: "map_of new_kwargs n
      = (if n \<in> set (keys req0) then Some (Array (merged_input req_list n)) else map_of kwargs n)"
    for n
    unfolding new_kwargs_def dict_update_lookup[OF de]
    by (simp add: map_of_map inp3)
  have run: "batch wrapped caller req_list kwargs =
      (case wrapped new_kwargs of
         Inl e \<Rightarrow> ([new_kwargs], Inl e)
       | Inr returned \<Rightarrow>
           (case convert_output returned caller None of
              Inl e \<Rightarrow> ([new_kwargs], Inl e)
            | Inr outs \<Rightarrow> ([new_kwargs], split_outputs outs req_list 0 [])))"
    unfolding new_kwargs_def rl batch_def
    using same inp(1)[unfolded rl] by (simp add: Let_def)
  have call: "fst (batch wrapped caller req_list kwargs) = [new_kwargs]"
    unfolding run by (simp split: sum.splits)
  have reqs: "list_all (\<lambda>r. r \<noteq> [] \<and> shape (snd (hd r)) \<noteq> []) req_list"
    unfolding list_all_iff
  proof
    fix r assume "r \<in> set req_list"
    with mergeableD(3)[OF m] have u: "uniform_request r" by (rule bspec)
    have ne: "r \<noteq> []" by (rule uniform_requestD(1)[OF u])
    then have "hd r \<in> set r" by simp
    from uniform_requestD(2)[OF u this] ne show "r \<noteq> [] \<and> shape (snd (hd r)) \<noteq> []" by simp
  qed
  have split: "\<exists>out_list.
              snd (batch wrapped caller req_list kwargs) = Inr out_list
            \<and> length out_list = length req_list
            \<and> (\<forall>i<length req_list.
                 list_all2 (\<lambda>kv kv'. fst kv' = fst kv \<and>
                      slice_rows (snd kv) (sum_list (take i ?bs))
                                 (sum_list (take (Suc i) ?bs)) = Inr (snd kv'))
                   outs (out_list ! i))
            \<and> (\<forall>kv \<in> set outs.
                 wf_array (snd kv) \<and> hd (shape (snd kv)) = sum_list ?bs \<longrightarrow>
                 np_concatenate (map (\<lambda>d. the (map_of d (fst kv))) out_list) = Inr (snd kv))"
    if w: "wrapped new_kwargs = Inr returned" "convert_output returned caller None = Inr outs"
      and d: "distinct (keys outs)" and nd: "list_all (\<lambda>kv. shape (snd kv) \<noteq> []) outs"
    for returned outs
  proof -
    let ?f = "\<lambda>i. map (\<lambda>kv. (fst kv, slice_of (snd kv) (sum_list (take i ?bs))
                                             (sum_list (take (Suc i) ?bs)))) outs"
    define out_list where "out_list = map ?f [0..<length req_list]"
    have 1: "snd (batch wrapped caller req_list kwargs) = Inr out_list"
      unfolding run w sum.case using split_outputs_ok[OF d nd reqs, of 0 "[]"]
      by (simp add: out_list_def)
    have 2: "length out_list = length req_list" by (simp add: out_list_def)
    have 3: "list_all2 (\<lambda>kv kv'. fst kv' = fst kv \<and>
                      slice_rows (snd kv) (sum_list (take i ?bs))
                                 (sum_list (take (Suc i) ?bs)) = Inr (snd kv'))
                   outs (out_list ! i)"
      if "i < length req_list" for i
    proof -
      have "slice_rows (snd kv) lo hi = Inr (slice_of (snd kv) lo hi)"
        if "kv \<in> set outs" for kv lo hi
        using nd that by (intro slice_rows_ok) (auto simp: list_all_iff)
      then show ?thesis
        using that by (simp add: out_list_def list_all2_map2 list_all2_same)
    qed
    have 4: "np_concatenate (map (\<lambda>d. the (map_of d (fst kv))) out_list) = Inr (snd kv)"
      if kv: "kv \<in> set outs" and wf: "wf_array (snd kv)"
        and tot: "hd (shape (snd kv)) = sum_list ?bs" for kv
    proof -
      have "map_of (?f i) (fst kv)
          = Some (slice_of (snd kv) (sum_list (take i ?bs)) (sum_list (take (Suc i) ?bs)))" for i
      proof (rule map_of_is_SomeI)
        show "distinct (map fst (?f i))" using d by (simp add: keys_def comp_def)
        show "(fst kv, slice_of (snd kv) (sum_list (take i ?bs)) (sum_list (take (Suc i) ?bs)))
                \<in> set (?f i)"
          using kv by auto
      qed
      then have "map (\<lambda>d. the (map_of d (fst kv))) out_list
          = map (\<lambda>i. slice_of (snd kv) (sum_list (take i ?bs)) (sum_list (take (Suc i) ?bs)))
              [0..<length ?bs]"
        by (simp add: out_list_def comp_def local_batch_sizes_def)
      moreover have "shape (snd kv) \<noteq> []" using nd kv by (auto simp: list_all_iff)
      moreover have "?bs \<noteq> []" by (simp add: local_batch_sizes_def rl)
      ultimately show ?thesis using concatenate_slices[OF wf _ tot] by simp
    qed
    have all3: "\<forall>i<length req_list.
                 list_all2 (\<lambda>kv kv'. fst kv' = fst kv \<and>
                      slice_rows (snd kv) (sum_list (take i ?bs))
                                 (sum_list (take (Suc i) ?bs)) = Inr (snd kv'))
                   outs (out_list ! i)"
      by (intro allI impI) (rule 3)
    have all4: "\<forall>kv \<in> set outs.
                 wf_array (snd kv) \<and> hd (shape (snd kv)) = sum_list ?bs \<longrightarrow>
                 np_concatenate (map (\<lambda>d. the (map_of d (fst kv))) out_list) = Inr (snd kv)"
      by (intro ballI impI) (rule 4; simp)
    show ?thesis
      by (rule exI[of _ out_list]) (intro conjI 1 2 all3 all4)
  qed
  have a: "\<forall>n \<in> set (keys (hd req_list)).
          map_of new_kwargs n = Some (Array (merged_input req_list n))
        \<and> hd (shape (merged_input req_list n)) = sum_list ?bs"
    using look mergeable_inputs(3)[OF m] by (simp add: rl)
  have b: "\<forall>n. n \<notin> set (keys (hd req_list)) \<longrightarrow> map_of new_kwargs n = map_of kwargs n"
    using look by (simp add: rl)
  have c: "\<forall>returned outs.
          wrapped new_kwargs = Inr returned \<longrightarrow>
          convert_output returned caller None = Inr outs \<longrightarrow>
          distinct (keys outs) \<longrightarrow> list_all (\<lambda>kv. shape (snd kv) \<noteq> []) outs \<longrightarrow>
          (\<exists>out_list.
              snd (batch wrapped caller req_list kwargs) = Inr out_list
            \<and> length out_list = length req_list
            \<and> (\<forall>i<length req_list.
                 list_all2 (\<lambda>kv kv'. fst kv' = fst kv \<and>
                      slice_rows (snd kv) (sum_list (take i ?bs))
                                 (sum_list (take (Suc i) ?bs)) = Inr (snd kv'))
                   outs (out_list ! i))
            \<and> (\<forall>kv \<in> set outs.
                 wf_array (snd kv) \<and> hd (shape (snd kv)) = sum_list ?bs \<longrightarrow>
                 np_concatenate (map (\<lambda>d. the (map_of d (fst kv))) out_list) = Inr (snd kv)))"
    by (intro allI impI) (rule split; assumption)
  show ?thesis
    by (rule exI[of _ new_kwargs]) (intro conjI call a b c)
qed

theorem batch_merge_split_witness:
  "mergeable two_requests
   \<and> (\<exists>new_kwargs out_list.
         fst (batch echo_x None two_requests []) = [new_kwargs]
       \<and> map_of new_kwargs ''x'' = Some (Array (NDArray [3, 3] [Num 1, Num 2, Num 3, Num 4, Num 5, Num 6, Num 7, Num 8, Num 9]))
       \<and> snd (batch echo_x None two_requests []) = Inr out_list
       \<and> length out_list = 2
       \<and> out_list ! 0 = [(''y'', NDArray [2, 3] [Num 1, Num 2, Num 3, Num 4, Num 5, Num 6])]
       \<and> out_list ! 1 = [(''y'', NDArray [1, 3] [Num 7, Num 8, Num 9])]
       \<and> np_concatenate (map (\<lambda>d. the (map_of d ''y'')) out_list)
           = Inr (NDArray [3, 3] [Num 1, Num 2, Num 3, Num 4, Num 5, Num 6, Num 7, Num 8, Num 9]))"
proof -
  let ?merged = "NDArray [3, 3] [Num 1, Num 2, Num 3, Num 4, Num 5, Num 6, Num 7, Num 8, Num 9]"
  let ?outs = "[(''y'', ?merged)]"
  have m: "mergeable two_requests" by code_simp
  have ks: "''x'' \<in> set (keys (hd two_requests))" by code_simp
  have mi: "merged_input two_requests ''x'' = ?merged" by code_simp
  have bs: "local_batch_sizes two_requests = [2, 1]" by code_simp
  from batch_merge_split[OF m, of echo_x None "[]"] obtain new_kwargs where
    call: "fst (batch echo_x None two_requests []) = [new_kwargs]"
    and inputs: "\<forall>n \<in> set (keys (hd two_requests)).
          map_of new_kwargs n = Some (Array (merged_input two_requests n))
        \<and> hd (shape (merged_input two_requests n)) = sum_list (local_batch_sizes two_requests)"
    and split: "\<forall>returned outs.
          echo_x new_kwargs = Inr returned \<longrightarrow>
          convert_output returned None None = Inr outs \<longrightarrow>
          distinct (keys outs) \<longrightarrow> list_all (\<lambda>kv. shape (snd kv) \<noteq> []) outs \<longrightarrow>
          (\<exists>out_list.
              snd (batch echo_x None two_requests []) = Inr out_list
            \<and> length out_list = length two_requests
            \<and> (\<forall>i<length two_requests.
                 list_all2 (\<lambda>kv kv'. fst kv' = fst kv \<and>
                      slice_rows (snd kv) (sum_list (take i (local_batch_sizes two_requests)))
                                 (sum_list (take (Suc i) (local_batch_sizes two_requests)))
                        = Inr (snd kv'))
                   outs (out_list ! i))
            \<and> (\<forall>kv \<in> set outs.
                 wf_array (snd kv) \<and> hd (shape (snd kv)) = sum_list (local_batch_sizes two_requests) \<longrightarrow>
                 np_concatenate (map (\<lambda>d. the (map_of d (fst kv))) out_list) = Inr (snd kv)))"
    by (elim exE conjE) (rule that; assumption)
  from inputs ks have x: "map_of new_kwargs ''x'' = Some (Array ?merged)"
    unfolding mi[symmetric] by blast
  have 1: "echo_x new_kwargs = Inr (PyDict ?outs)" by (simp add: echo_x_def x)
  have 2: "convert_output (PyDict ?outs) None None = Inr ?outs" by simp
  have 3: "distinct (keys ?outs)" by (simp add: keys_def)
  have 4: "list_all (\<lambda>kv. shape (snd kv) \<noteq> []) ?outs" by simp
  from split[rule_format, OF 1 2 3 4] obtain out_list where
    res: "snd (batch echo_x None two_requests []) = Inr out_list"
    and len: "length out_list = length two_requests"
    and slices: "\<forall>i<length two_requests.
                 list_all2 (\<lambda>kv kv'. fst kv' = fst kv \<and>
                      slice_rows (snd kv) (sum_list (take i (local_batch_sizes two_requests)))
                                 (sum_list (take (Suc i) (local_batch_sizes two_requests)))
                        = Inr (snd kv'))
                   ?outs (out_list ! i)"
    and rebuilt: "\<forall>kv \<in> set ?outs.
                 wf_array (snd kv) \<and> hd (shape (snd kv)) = sum_list (local_batch_sizes two_requests) \<longrightarrow>
                 np_concatenate (map (\<lambda>d. the (map_of d (fst kv))) out_list) = Inr (snd kv)"
    by (elim exE conjE) (rule that; assumption)
  have l2: "length two_requests = 2" by (simp add: two_requests_def)
  have s0: "slice_rows ?merged 0 2 = Inr (NDArray [2, 3] [Num 1, Num 2, Num 3, Num 4, Num 5, Num 6])"
    by (simp add: slice_rows_def)
  have s1: "slice_rows ?merged 2 3 = Inr (NDArray [1, 3] [Num 7, Num 8, Num 9])"
    by (simp add: slice_rows_def)
  have i01: "0 < length two_requests" "1 < length two_requests" by (simp_all add: l2)
  have o0: "out_list ! 0 = [(''y'', NDArray [2, 3] [Num 1, Num 2, Num 3, Num 4, Num 5, Num 6])]"
    using slices[rule_format, OF i01(1)] s0 unfolding bs
    by (auto simp: list_all2_Cons1)
  have o1: "out_list ! 1 = [(''y'', NDArray [1, 3] [Num 7, Num 8, Num 9])]"
    using slices[rule_format, OF i01(2)] s1 unfolding bs
    by (auto simp: list_all2_Cons1)
  have "wf_array ?merged \<and> hd (shape ?merged) = sum_list (local_batch_sizes two_requests)"
    by (simp add: wf_array_def bs)
  with rebuilt have cat: "np_concatenate (map (\<lambda>d. the (map_of d ''y'')) out_list) = Inr ?merged"
    by simp
  show ?thesis
    using m call x res len l2 o0 o1 cat by (intro conjI exI[of _ new_kwargs] exI[of _ out_list]) simp_all
qed

end
